theory Spec2Isabelle
  imports Main
begin

section \<open>The option table (main.c, lines 16-27)\<close>

text \<open>
  \<^verbatim>\<open>struct option\<close> of \<^verbatim>\<open>getopt.h\<close>: the long name (\<^verbatim>\<open>NULL\<close> in the terminating
  entry), the arity and the value returned for the option, which is also its short
  character. The \<^verbatim>\<open>flag\<close> pointer is \<^verbatim>\<open>NULL\<close> in every entry of the table and is left
  out. The value \<^verbatim>\<open>0\<close> is the character \<open>CHR 0x00\<close>.
\<close>

datatype has_arg_t = no_argument | required_argument | optional_argument

record long_option =
  name :: "string option"
  has_arg :: has_arg_t
  val :: char

definition options :: "long_option list" where
  "options =
    [\<lparr>name = Some ''fullscreen'', has_arg = no_argument,       val = CHR ''f''\<rparr>,
     \<lparr>name = Some ''scale'',      has_arg = required_argument, val = CHR ''s''\<rparr>,
     \<lparr>name = Some ''background'', has_arg = required_argument, val = CHR ''b''\<rparr>,
     \<lparr>name = Some ''geometry'',   has_arg = required_argument, val = CHR ''g''\<rparr>,
     \<lparr>name = Some ''info'',       has_arg = no_argument,       val = CHR ''i''\<rparr>,
     \<lparr>name = Some ''class'',      has_arg = required_argument, val = CHR ''c''\<rparr>,
     \<lparr>name = Some ''no-sway'',    has_arg = no_argument,       val = CHR ''n''\<rparr>,
     \<lparr>name = Some ''version'',    has_arg = no_argument,       val = CHR ''v''\<rparr>,
     \<lparr>name = Some ''help'',       has_arg = no_argument,       val = CHR ''h''\<rparr>,
     \<lparr>name = None,               has_arg = no_argument,       val = CHR 0x00\<rparr>]"

section \<open>Composing the short options string (main.c, lines 58-72)\<close>

text \<open>
  The buffer \<^verbatim>\<open>short_opts\<close> is an array on the stack: a cell holds \<open>None\<close> until it is
  written. A write through \<^verbatim>\<open>short_opts_ptr\<close> outside the array gives \<open>None\<close> for the
  whole computation.
\<close>

type_synonym buffer = "char option list"

definition store :: "buffer \<Rightarrow> nat \<Rightarrow> char \<Rightarrow> buffer option" where
  "store buf p c = (if p < length buf then Some (buf[p := Some c]) else None)"

text \<open>The loop over the table; \<open>p\<close> is the offset of \<^verbatim>\<open>short_opts_ptr\<close> in the buffer.\<close>

fun compose_loop :: "long_option list \<Rightarrow> buffer \<Rightarrow> nat \<Rightarrow> (buffer \<times> nat) option" where
  "compose_loop [] buf p = Some (buf, p)"
| "compose_loop (opt # rest) buf p =
     (if val opt \<noteq> CHR 0x00 then
        (case store buf p (val opt) of
           None \<Rightarrow> None
         | Some buf1 \<Rightarrow>
             if has_arg opt \<noteq> no_argument then
               (case store buf1 (p + 1) CHR '':'' of
                  None \<Rightarrow> None
                | Some buf2 \<Rightarrow> compose_loop rest buf2 (p + 2))
             else compose_loop rest buf1 (p + 1))
      else compose_loop rest buf p)"

text \<open>
  The array has two cells for each entry of the table; after the loop the
  terminating null goes where the pointer stands. The result is the buffer and the
  offset of the null.
\<close>

definition compose_short_opts :: "long_option list \<Rightarrow> (buffer \<times> nat) option" where
  "compose_short_opts table =
     (case compose_loop table (replicate (2 * length table) None) 0 of
        None \<Rightarrow> None
      | Some (buf, p) \<Rightarrow>
          (case store buf p (CHR 0x00) of
             None \<Rightarrow> None
           | Some buf' \<Rightarrow> Some (buf', p)))"

text \<open>
  Reading the buffer as a C string: the characters before the first null. Reading a
  cell never written, or running off the array, gives \<open>None\<close>.
\<close>

fun c_str :: "buffer \<Rightarrow> string option" where
  "c_str [] = None"
| "c_str (None # rest) = None"
| "c_str (Some c # rest) =
     (if c = CHR 0x00 then Some [] else map_option ((#) c) (c_str rest))"

text \<open>The string that \<^verbatim>\<open>getopt_long\<close> receives as \<^verbatim>\<open>short_opts\<close>.\<close>

definition short_opts :: string where
  "short_opts =
     (case compose_short_opts options of
        None \<Rightarrow> []
      | Some (buf, p) \<Rightarrow> (case c_str buf of None \<Rightarrow> [] | Some s \<Rightarrow> s))"

text \<open>
  The specification of the short options string, in the words of the contract: for
  every entry with a non-zero short character, that character, followed by a colon
  if and only if its arity is required-argument, in the order of the table.
\<close>

definition short_spec_entry :: "long_option \<Rightarrow> string" where
  "short_spec_entry opt =
     (if val opt = CHR 0x00 then []
      else if has_arg opt = required_argument then [val opt, CHR '':'']
      else [val opt])"

definition short_spec :: "long_option list \<Rightarrow> string" where
  "short_spec table = concat (map short_spec_entry table)"

text \<open>A table is terminated when its last entry has the value zero.\<close>

definition terminated :: "long_option list \<Rightarrow> bool" where
  "terminated table = (table \<noteq> [] \<and> val (last table) = CHR 0x00)"

definition no_optional :: "long_option list \<Rightarrow> bool" where
  "no_optional table = list_all (\<lambda>opt. has_arg opt \<noteq> optional_argument) table"

text \<open>The number of entries of a table that have a short character.\<close>

definition shorts :: "long_option list \<Rightarrow> nat" where
  "shorts table = length (filter (\<lambda>opt. val opt \<noteq> CHR 0x00) table)"

section \<open>The option scanner of the C library\<close>

text \<open>
  \<^verbatim>\<open>getopt_long\<close> belongs to the C library, not to this program. It is modelled as
  the GNU C library implements it (\<^verbatim>\<open>_getopt_internal_r\<close> and \<^verbatim>\<open>process_long_option\<close>
  of \<^verbatim>\<open>posix/getopt.c\<close>), with the argument vector kept in segments instead of
  indices. In the library's own terms:
  \<^item> \<open>scanned\<close> is \<^verbatim>\<open>argv[0 .. first_nonopt)\<close>: the program name and the option
    elements that are in their final place;
  \<^item> \<open>nonopts\<close> is \<^verbatim>\<open>argv[first_nonopt .. last_nonopt)\<close>: the non-options skipped so
    far;
  \<^item> \<open>recent\<close> is \<^verbatim>\<open>argv[last_nonopt .. optind)\<close>: the option elements scanned after
    the skipped non-options and not yet exchanged with them;
  \<^item> \<open>nextchar\<close> is the rest of the cluster of short options being scanned (empty
    for \<^verbatim>\<open>NULL\<close> or a pointer to the final null), and \<open>cur\<close> is then the element
    \<^verbatim>\<open>argv[optind]\<close> that holds it;
  \<^item> \<open>todo\<close> holds the elements after these, up to \<^verbatim>\<open>argv[argc - 1]\<close>;
  \<^item> \<open>optarg\<close> is the global of that name.

  \<^verbatim>\<open>argc\<close> is at least one: \<^verbatim>\<open>argv[0]\<close> is the program name. The \<^verbatim>\<open>flag\<close> fields of
  the table are null, so a long option returns its value; the \<^verbatim>\<open>W;\<close> extension of
  the short options string is left out (the composed string has no \<^verbatim>\<open>W\<close>);
  \<^verbatim>\<open>opterr\<close> is zero, so the library prints nothing.
\<close>

record getopt_data =
  scanned :: "string list"
  nonopts :: "string list"
  recent :: "string list"
  cur :: string
  nextchar :: string
  todo :: "string list"
  optarg :: "string option"

definition argv_of :: "getopt_data \<Rightarrow> string list" where
  "argv_of d =
     scanned d @ nonopts d @ recent d @ (if nextchar d = [] then [] else [cur d]) @ todo d"

definition optind_of :: "getopt_data \<Rightarrow> nat" where
  "optind_of d = length (scanned d) + length (nonopts d) + length (recent d)"

text \<open>The state before the first call: \<^verbatim>\<open>optind\<close> is one and nothing is skipped.\<close>

definition getopt_start :: "string \<Rightarrow> string list \<Rightarrow> getopt_data" where
  "getopt_start prog args =
     \<lparr>scanned = [prog], nonopts = [], recent = [], cur = [], nextchar = [],
      todo = args, optarg = None\<rparr>"

datatype ordering_t = REQUIRE_ORDER | PERMUTE | RETURN_IN_ORDER

text \<open>
  \<^verbatim>\<open>_getopt_initialize\<close>: the ordering comes from the first character of the short
  options string and from the environment variable \<^verbatim>\<open>POSIXLY_CORRECT\<close>.
\<close>

definition getopt_ordering :: "bool \<Rightarrow> string \<Rightarrow> ordering_t" where
  "getopt_ordering posixly_correct optstring =
     (case optstring of
        c # cs \<Rightarrow>
          if c = CHR ''-'' then RETURN_IN_ORDER
          else if c = CHR ''+'' then REQUIRE_ORDER
          else if posixly_correct then REQUIRE_ORDER
          else PERMUTE
      | [] \<Rightarrow> if posixly_correct then REQUIRE_ORDER else PERMUTE)"

definition skip_prefix :: "string \<Rightarrow> string" where
  "skip_prefix optstring =
     (case optstring of
        c # cs \<Rightarrow> if c = CHR ''-'' \<or> c = CHR ''+'' then cs else optstring
      | [] \<Rightarrow> optstring)"

text \<open>\<^verbatim>\<open>NONOPTION_P\<close>: the element does not start with a dash, or is the dash alone.\<close>

definition NONOPTION_P :: "string \<Rightarrow> bool" where
  "NONOPTION_P t = (case t of [] \<Rightarrow> True | c # cs \<Rightarrow> c \<noteq> CHR ''-'' \<or> cs = [])"

text \<open>
  Under \<^verbatim>\<open>PERMUTE\<close>, before the next element is looked at: the options scanned since
  the last skip are exchanged with the skipped non-options, so that they come first,
  and the non-options that follow are skipped as well.
\<close>

definition permute_skip :: "getopt_data \<Rightarrow> getopt_data" where
  "permute_skip d =
     d\<lparr>scanned := scanned d @ recent d, recent := [],
       nonopts := nonopts d @ takeWhile NONOPTION_P (todo d),
       todo := dropWhile NONOPTION_P (todo d)\<rparr>"

definition advance :: "ordering_t \<Rightarrow> getopt_data \<Rightarrow> getopt_data" where
  "advance ord d = (if ord = PERMUTE then permute_skip d else d)"

text \<open>
  The element \<^verbatim>\<open>--\<close> ends the options: it is exchanged with the skipped non-options
  like an option, and everything after it is a non-option.
\<close>

definition end_of_options :: "getopt_data \<Rightarrow> getopt_data" where
  "end_of_options d =
     d\<lparr>scanned := scanned d @ recent d @ [''--''], recent := [],
       nonopts := nonopts d @ tl (todo d), todo := []\<rparr>"

text \<open>
  At the end of the scan \<^verbatim>\<open>optind\<close> is set back to \<^verbatim>\<open>first_nonopt\<close> when non-options
  were skipped, so that the caller finds them from \<^verbatim>\<open>optind\<close> on.
\<close>

definition finish :: "getopt_data \<Rightarrow> getopt_data" where
  "finish d =
     (if nonopts d \<noteq> [] then
        d\<lparr>nonopts := [], recent := [], todo := nonopts d @ recent d @ todo d\<rparr>
      else d)"

text \<open>The value returned for a required argument that is missing.\<close>

definition missing_arg :: "string \<Rightarrow> int" where
  "missing_arg optstring =
     (case optstring of
        c # cs \<Rightarrow> if c = CHR '':'' then of_char CHR '':'' else of_char CHR ''?''
      | [] \<Rightarrow> of_char CHR ''?'')"

text \<open>
  \<^verbatim>\<open>process_long_option\<close>, for the element \<open>tok\<close> that starts with two dashes. The
  name ends at the first \<^verbatim>\<open>=\<close>. An exact match is looked for first, then the entries
  that the name abbreviates; two of these that differ make the name ambiguous. The
  element is consumed in every case.
\<close>

definition long_name :: "string \<Rightarrow> string" where
  "long_name s = takeWhile (\<lambda>c. c \<noteq> CHR ''='') s"

definition long_arg :: "string \<Rightarrow> string option" where
  "long_arg s =
     (case dropWhile (\<lambda>c. c \<noteq> CHR ''='') s of [] \<Rightarrow> None | c # a \<Rightarrow> Some a)"

definition abbreviates :: "string \<Rightarrow> long_option \<Rightarrow> bool" where
  "abbreviates nm p =
     (case name p of None \<Rightarrow> False | Some n \<Rightarrow> take (length nm) n = nm)"

definition long_found ::
  "string \<Rightarrow> long_option \<Rightarrow> string option \<Rightarrow> getopt_data \<Rightarrow> int \<times> getopt_data" where
  "long_found optstring p arg d =
     (case arg of
        Some a \<Rightarrow>
          if has_arg p \<noteq> no_argument then (of_char (val p), d\<lparr>optarg := Some a\<rparr>)
          else (of_char CHR ''?'', d)
      | None \<Rightarrow>
          if has_arg p = required_argument then
            (case todo d of
               [] \<Rightarrow> (missing_arg optstring, d)
             | a # rest \<Rightarrow>
                 (of_char (val p),
                  d\<lparr>optarg := Some a, recent := recent d @ [a], todo := rest\<rparr>))
          else (of_char (val p), d))"

definition process_long_option ::
  "string \<Rightarrow> long_option list \<Rightarrow> getopt_data \<Rightarrow> string \<Rightarrow> int \<times> getopt_data" where
  "process_long_option optstring longopts d tok =
     (let nm = long_name (drop 2 tok);
          arg = long_arg (drop 2 tok);
          entries = takeWhile (\<lambda>p. name p \<noteq> None) longopts;
          d1 = d\<lparr>recent := recent d @ [tok], todo := tl (todo d), nextchar := []\<rparr>
      in case find (\<lambda>p. name p = Some nm) entries of
           Some p \<Rightarrow> long_found optstring p arg d1
         | None \<Rightarrow>
             (case filter (abbreviates nm) entries of
                [] \<Rightarrow> (of_char CHR ''?'', d1)
              | p # ps \<Rightarrow>
                  if list_ex (\<lambda>q. has_arg q \<noteq> has_arg p \<or> val q \<noteq> val p) ps
                  then (of_char CHR ''?'', d1)
                  else long_found optstring p arg d1))"

text \<open>
  The next short option character of the cluster in \<open>nextchar\<close>. \<^verbatim>\<open>optind\<close> moves
  past the element when its last character is taken, before the character is looked
  up in the short options string.
\<close>

definition short_option :: "string \<Rightarrow> getopt_data \<Rightarrow> int \<times> getopt_data" where
  "short_option optstring d =
     (case nextchar d of
        [] \<Rightarrow> (- 1, d)
      | c # nc \<Rightarrow>
          let temp = dropWhile (\<lambda>x. x \<noteq> c) optstring;
              d1 = (if nc = [] then d\<lparr>recent := recent d @ [cur d], nextchar := []\<rparr>
                    else d\<lparr>nextchar := nc\<rparr>)
          in if temp = [] \<or> c = CHR '':'' \<or> c = CHR '';'' then (of_char CHR ''?'', d1)
             else
               (case tl temp of
                  [] \<Rightarrow> (of_char c, d1)
                | t1 # t2 \<Rightarrow>
                    if t1 \<noteq> CHR '':'' then (of_char c, d1)
                    else if (case t2 of [] \<Rightarrow> False | x # xs \<Rightarrow> x = CHR '':'') then
                      (if nc \<noteq> [] then
                         (of_char c,
                          d\<lparr>optarg := Some nc, recent := recent d @ [cur d], nextchar := []\<rparr>)
                       else (of_char c, d1))
                    else if nc \<noteq> [] then
                      (of_char c,
                       d\<lparr>optarg := Some nc, recent := recent d @ [cur d], nextchar := []\<rparr>)
                    else
                      (case todo d1 of
                         [] \<Rightarrow> (missing_arg optstring, d1)
                       | a # rest \<Rightarrow>
                           (of_char c,
                            d1\<lparr>optarg := Some a, recent := recent d1 @ [a],
                               todo := rest\<rparr>))))"

text \<open>
  One call of \<^verbatim>\<open>getopt_long\<close>: the value returned and the state after the call.
  \<open>posixly_correct\<close> says whether the environment sets \<^verbatim>\<open>POSIXLY_CORRECT\<close>.
\<close>

definition getopt_long ::
  "bool \<Rightarrow> string \<Rightarrow> long_option list \<Rightarrow> getopt_data \<Rightarrow> int \<times> getopt_data" where
  "getopt_long posixly_correct optstring0 longopts d0 =
     (let ordering = getopt_ordering posixly_correct optstring0;
          optstring = skip_prefix optstring0;
          d = d0\<lparr>optarg := None\<rparr>
      in if nextchar d \<noteq> [] then short_option optstring d
         else
           let d1 = advance ordering d
           in case todo d1 of
                [] \<Rightarrow> (- 1, finish d1)
              | tok # rest \<Rightarrow>
                  if tok = ''--'' then (- 1, finish (end_of_options d1))
                  else if NONOPTION_P tok then
                    (if ordering = REQUIRE_ORDER then (- 1, d1)
                     else (1, d1\<lparr>optarg := Some tok, recent := recent d1 @ [tok],
                                 todo := rest\<rparr>))
                  else if (case tl tok of [] \<Rightarrow> False | x # xs \<Rightarrow> x = CHR ''-'') then
                    process_long_option optstring longopts d1 tok
                  else
                    short_option optstring
                      (d1\<lparr>cur := tok, nextchar := tl tok, todo := rest\<rparr>))"

text \<open>What is left to scan: every call that returns an option makes it smaller.\<close>

definition remaining :: "getopt_data \<Rightarrow> nat" where
  "remaining d =
     sum_list (map (\<lambda>t. length t + 2) (todo d)) +
     (if nextchar d = [] then 0 else length (nextchar d) + 1)"



lemma sum_list_dropWhile_le:
  "sum_list (map f (dropWhile P xs)) \<le> (sum_list (map f xs) :: nat)"
  by (induction xs) auto

lemma long_found_remaining:
  "long_found os p arg d = (r, d') \<Longrightarrow> remaining d' \<le> remaining d"
  by (auto simp: long_found_def remaining_def split: option.splits if_splits list.splits)

lemma process_long_option_remaining:
  assumes "process_long_option os lo d tok = (r, d')" and "todo d = tok # rest"
  shows "remaining d' < sum_list (map (\<lambda>t. length t + 2) (todo d))"
proof -
  let ?d1 = "d\<lparr>recent := recent d @ [tok], todo := tl (todo d), nextchar := []\<rparr>"
  have d1: "remaining ?d1 < sum_list (map (\<lambda>t. length t + 2) (todo d))"
    using assms(2) by (simp add: remaining_def)
  from assms(1) have "d' = ?d1 \<or> (\<exists>p. long_found os p (long_arg (drop 2 tok)) ?d1 = (r, d'))"
    by (auto simp: process_long_option_def Let_def split: option.splits list.splits if_splits)
  then have "remaining d' \<le> remaining ?d1"
    using long_found_remaining by blast
  with d1 show ?thesis by simp
qed

lemma short_option_remaining:
  assumes "short_option os d = (r, d')" and "r \<noteq> - 1"
  shows "remaining d' < remaining d"
  using assms
  by (auto simp: short_option_def remaining_def Let_def
      split: list.splits if_splits)

lemma getopt_long_remaining:
  assumes "getopt_long pc os lo d = (r, d')" and "r \<noteq> - 1"
  shows "remaining d' < remaining d"
proof (cases "nextchar d = []")
  case False
  with assms have "short_option (skip_prefix os) (d\<lparr>optarg := None\<rparr>) = (r, d')"
    by (simp add: getopt_long_def Let_def)
  from short_option_remaining [OF this assms(2)]
  have "remaining d' < remaining (d\<lparr>optarg := None\<rparr>)" .
  moreover have "remaining (d\<lparr>optarg := None\<rparr>) = remaining d"
    by (simp add: remaining_def)
  ultimately show ?thesis by simp
next
  case True
  define d1 where "d1 = advance (getopt_ordering pc os) (d\<lparr>optarg := None\<rparr>)"
  have nc1: "nextchar d1 = []" using True by (simp add: d1_def advance_def permute_skip_def)
  have le: "remaining d1 \<le> remaining d"
    using True
    by (simp add: d1_def advance_def permute_skip_def remaining_def sum_list_dropWhile_le)
  have r1: "remaining d1 = sum_list (map (\<lambda>t. length t + 2) (todo d1))"
    using nc1 by (simp add: remaining_def)
  from assms True obtain tok rest where td: "todo d1 = tok # rest"
    by (cases "todo d1") (auto simp: getopt_long_def Let_def d1_def)
  from assms True td have cases:
    "(r = 1 \<and> d' = d1\<lparr>optarg := Some tok, recent := recent d1 @ [tok], todo := rest\<rparr>)
     \<or> process_long_option (skip_prefix os) lo d1 tok = (r, d')
     \<or> (\<not> NONOPTION_P tok \<and> short_option (skip_prefix os) (d1\<lparr>cur := tok, nextchar := tl tok, todo := rest\<rparr>) = (r, d'))"
    by (auto simp: getopt_long_def Let_def d1_def split: if_splits)
  then have "remaining d' < remaining d1"
  proof (elim disjE conjE)
    assume "d' = d1\<lparr>optarg := Some tok, recent := recent d1 @ [tok], todo := rest\<rparr>"
    then show ?thesis using td nc1 by (simp add: remaining_def)
  next
    assume "process_long_option (skip_prefix os) lo d1 tok = (r, d')"
    from process_long_option_remaining [OF this td] show ?thesis by (simp add: r1)
  next
    assume n: "\<not> NONOPTION_P tok"
      and s: "short_option (skip_prefix os) (d1\<lparr>cur := tok, nextchar := tl tok, todo := rest\<rparr>) = (r, d')"
    from short_option_remaining [OF s assms(2)]
    have "remaining d' < remaining (d1\<lparr>cur := tok, nextchar := tl tok, todo := rest\<rparr>)" .
    also have "\<dots> \<le> remaining d1"
      using td nc1 by (auto simp: remaining_def)
    finally show ?thesis .
  qed
  with le show ?thesis by simp
qed

section \<open>The configuration and the collaborators\<close>

text \<open>
  \<^verbatim>\<open>config_t\<close> is declared in \<^verbatim>\<open>config.h\<close>. \<^verbatim>\<open>main.c\<close> writes three of its fields;
  the others are the extension of the record.
\<close>

record config =
  fullscreen :: bool
  sway_wm :: bool
  show_info :: bool

text \<open>
  What \<^verbatim>\<open>main.c\<close> takes from \<^verbatim>\<open>buildcfg.h\<close>, \<^verbatim>\<open>config.h\<close>, \<^verbatim>\<open>image.h\<close> and \<^verbatim>\<open>viewer.h\<close>,
  as parameters: \<open>'c\<close> is the configuration and \<open>'f\<close> the file list. A setter
  returns \<^verbatim>\<open>false\<close> (\<open>None\<close>) or \<^verbatim>\<open>true\<close> with the configuration it has written;
  \<^verbatim>\<open>init_config\<close> and \<^verbatim>\<open>init_file_list\<close> return \<^verbatim>\<open>NULL\<close> (\<open>None\<close>) or an instance.
\<close>

record ('c, 'f) externals =
  APP_NAME :: string
  APP_VERSION :: string
  supported_formats :: string
  init_config :: "'c option"
  check_config :: "'c \<Rightarrow> 'c"
  set_scale_config :: "'c \<Rightarrow> string option \<Rightarrow> 'c option"
  set_background_config :: "'c \<Rightarrow> string option \<Rightarrow> 'c option"
  set_geometry_config :: "'c \<Rightarrow> string option \<Rightarrow> 'c option"
  set_appid_config :: "'c \<Rightarrow> string option \<Rightarrow> 'c option"
  init_file_list :: "string list \<Rightarrow> bool \<Rightarrow> 'f option"
  run_viewer :: "'c \<Rightarrow> 'f option \<Rightarrow> bool"

text \<open>
  What a run does besides returning: the text it writes and the calls it makes, each
  call with its arguments and with what it returned (for a setter and for
  \<^verbatim>\<open>init_file_list\<close>, whether it succeeded).
\<close>

datatype 'f event =
    Stdout string
  | Stderr string
  | Getopt_long int
  | Set_scale_config "string option" bool
  | Set_background_config "string option" bool
  | Set_geometry_config "string option" bool
  | Set_appid_config "string option" bool
  | Check_config
  | Init_file_list "string list" bool bool
  | Run_viewer "'f option" bool

definition EXIT_SUCCESS :: int where
  "EXIT_SUCCESS = 0"

definition EXIT_FAILURE :: int where
  "EXIT_FAILURE = 1"

section \<open>Parsing the command line (main.c, lines 30-125)\<close>

definition newline :: string where
  "newline = [CHR 0x0A]"

definition print_help :: "('c, 'f) externals \<Rightarrow> 'f event list" where
  "print_help ext =
     [Stdout (''Usage: '' @ APP_NAME ext @ '' [OPTION...] [FILE...]'' @ newline),
      Stdout (''  -f, --fullscreen         Full screen mode'' @ newline),
      Stdout (''  -s, --scale=TYPE         Set initial image scale: default, fit, or real''
              @ newline),
      Stdout (''  -b, --background=XXXXXX  Set background color as hex RGB'' @ newline),
      Stdout (''  -g, --geometry=X,Y,W,H   Set window geometry'' @ newline),
      Stdout (''  -i, --info               Show image properties'' @ newline),
      Stdout (''  -c, --class              Set window class/app_id'' @ newline),
      Stdout (''  -n, --no-sway            Disable integration with Sway WM'' @ newline),
      Stdout (''  -v, --version            Print version info and exit'' @ newline),
      Stdout (''  -h, --help               Print this help and exit'' @ newline)]"

text \<open>
  A call of a setter in the \<^verbatim>\<open>switch\<close>: on \<^verbatim>\<open>false\<close> the function returns \<open>-1\<close>.
\<close>

definition call_setter ::
  "('c \<Rightarrow> string option \<Rightarrow> 'c option) \<Rightarrow> (string option \<Rightarrow> bool \<Rightarrow> 'f event) \<Rightarrow>
   'c \<Rightarrow> string option \<Rightarrow> int option \<times> 'c \<times> 'f event list" where
  "call_setter setter ev cfg arg =
     (case setter cfg arg of
        None \<Rightarrow> (Some (- 1), cfg, [ev arg False])
      | Some cfg' \<Rightarrow> (None, cfg', [ev arg True]))"

text \<open>
  The body of the loop, for the value \<open>opt\<close> that \<^verbatim>\<open>getopt_long\<close> returned and the
  scanner state \<open>d\<close> after that call: \<open>Some rc\<close> when the function returns \<open>rc\<close> from
  inside the loop, \<open>None\<close> when the loop goes on; the configuration as written; the
  events.
\<close>

definition switch_opt ::
  "('a config_scheme, 'f) externals \<Rightarrow> int \<Rightarrow> getopt_data \<Rightarrow> 'a config_scheme \<Rightarrow>
   int option \<times> 'a config_scheme \<times> 'f event list" where
  "switch_opt ext opt d cfg =
     (if opt = of_char CHR ''f'' then
        (None, cfg\<lparr>fullscreen := True, sway_wm := False\<rparr>, [])
      else if opt = of_char CHR ''s'' then
        call_setter (set_scale_config ext) Set_scale_config cfg (optarg d)
      else if opt = of_char CHR ''b'' then
        call_setter (set_background_config ext) Set_background_config cfg (optarg d)
      else if opt = of_char CHR ''g'' then
        call_setter (set_geometry_config ext) Set_geometry_config cfg (optarg d)
      else if opt = of_char CHR ''i'' then
        (None, cfg\<lparr>show_info := True\<rparr>, [])
      else if opt = of_char CHR ''c'' then
        call_setter (set_appid_config ext) Set_appid_config cfg (optarg d)
      else if opt = of_char CHR ''n'' then
        (None, cfg\<lparr>sway_wm := False\<rparr>, [])
      else if opt = of_char CHR ''v'' then
        (Some 0, cfg,
         [Stdout (APP_NAME ext @ '' version '' @ APP_VERSION ext @ ''.'' @ newline),
          Stdout (''Supported formats: '' @ supported_formats ext @ ''.'' @ newline)])
      else if opt = of_char CHR ''h'' then
        (Some 0, cfg, print_help ext)
      else
        (Some (- 1), cfg,
         [Stderr (''Invalid argument: '' @ argv_of d ! (optind_of d - 1) @ newline)]))"

text \<open>
  The loop \<^verbatim>\<open>while ((opt = getopt_long(...)) != -1)\<close>. The result is the value
  returned from inside the loop, if any, the configuration, the scanner state (the
  argument vector as the scanner has permuted it, and \<^verbatim>\<open>optind\<close>) and the events.
\<close>

function parse_loop ::
  "('a config_scheme, 'f) externals \<Rightarrow> bool \<Rightarrow> getopt_data \<Rightarrow> 'a config_scheme \<Rightarrow>
   int option \<times> 'a config_scheme \<times> getopt_data \<times> 'f event list" where
  "parse_loop ext posixly_correct d cfg =
     (case getopt_long posixly_correct short_opts options d of
        (opt, d') \<Rightarrow>
          if opt \<noteq> - 1 then
            (case switch_opt ext opt d' cfg of
               (Some rc, cfg', out) \<Rightarrow> (Some rc, cfg', d', Getopt_long opt # out)
             | (None, cfg', out) \<Rightarrow>
                 (case parse_loop ext posixly_correct d' cfg' of
                    (r, cfg'', d'', out') \<Rightarrow> (r, cfg'', d'', Getopt_long opt # out @ out')))
          else (None, cfg, d', [Getopt_long opt]))"
  by pat_completeness auto
termination
  by (relation "measure (\<lambda>(ext, pc, d, cfg). remaining d)")
     (auto dest: getopt_long_remaining [OF sym])

text \<open>
  \<^verbatim>\<open>parse_cmdline\<close>, for the argument vector \<open>prog # args\<close>: the value returned (the
  index of the first non-option argument, \<open>-1\<close> on error, \<open>0\<close> to exit), the
  configuration, the scanner state and the events. The scan starts from the initial
  state of the scanner, with the short options string composed above.
\<close>

definition parse_cmdline ::
  "('a config_scheme, 'f) externals \<Rightarrow> bool \<Rightarrow> string \<Rightarrow> string list \<Rightarrow> 'a config_scheme \<Rightarrow>
   int \<times> 'a config_scheme \<times> getopt_data \<times> 'f event list" where
  "parse_cmdline ext posixly_correct prog args cfg =
     (case parse_loop ext posixly_correct (getopt_start prog args) cfg of
        (Some rc, cfg', d, out) \<Rightarrow> (rc, cfg', d, out)
      | (None, cfg', d, out) \<Rightarrow>
          (int (optind_of d), check_config ext cfg', d, out @ [Check_config]))"

section \<open>The entry point (main.c, lines 127-185)\<close>

definition recursive :: bool where
  "recursive = True"

text \<open>
  A call of \<^verbatim>\<open>init_file_list\<close> with its check: on \<^verbatim>\<open>NULL\<close> the message goes to the
  standard error and \<^verbatim>\<open>rc\<close> is \<^verbatim>\<open>EXIT_FAILURE\<close> (\<open>Some\<close> of it: \<^verbatim>\<open>goto done\<close>).
\<close>

definition enumerate_files ::
  "('c, 'f) externals \<Rightarrow> string list \<Rightarrow> string \<Rightarrow> int option \<times> 'f option \<times> 'f event list" where
  "enumerate_files ext paths msg =
     (case init_file_list ext paths recursive of
        None \<Rightarrow>
          (Some EXIT_FAILURE, None,
           [Init_file_list paths recursive False, Stderr (msg @ newline)])
      | Some files \<Rightarrow> (None, Some files, [Init_file_list paths recursive True]))"

text \<open>
  Lines 155-176: the file list for the arguments from \<open>index\<close> on. \<open>None\<close> as the
  file list is \<^verbatim>\<open>files = NULL\<close>: reading from the pipe. \<^verbatim>\<open>main\<close> comes here with
  \<open>0 < index\<close> and \<open>index \<le> argc\<close> (lemma \<open>parse_cmdline_cases\<close>), so that
  \<^verbatim>\<open>num_files\<close> is not negative and \<^verbatim>\<open>argv[index]\<close> is read only where it exists.
\<close>

definition select_files ::
  "('c, 'f) externals \<Rightarrow> string list \<Rightarrow> int \<Rightarrow> int option \<times> 'f option \<times> 'f event list" where
  "select_files ext argv index =
     (let num_files = int (length argv) - index
      in if num_files = 0 then
           enumerate_files ext [''.''] ''No image files found in the current directory''
         else if num_files = 1 \<and> argv ! nat index = ''-'' then (None, None, [])
         else
           enumerate_files ext (take (nat num_files) (drop (nat index) argv))
             ''Unable to compose file list from input args'')"

text \<open>
  \<^verbatim>\<open>main\<close>, for the argument vector \<open>prog # args\<close>: the exit code and the events.
  The scanner permutes \<^verbatim>\<open>argv\<close> in place, so the arguments that \<^verbatim>\<open>main\<close> reads from
  \<^verbatim>\<open>index\<close> on are those of the vector as the scan left it, \<open>argv_of d\<close>. The calls of
  \<^verbatim>\<open>free_config\<close> and \<^verbatim>\<open>free_file_list\<close> at \<^verbatim>\<open>done\<close> do not change \<^verbatim>\<open>rc\<close> and are left
  out.
\<close>

definition main ::
  "('a config_scheme, 'f) externals \<Rightarrow> bool \<Rightarrow> string \<Rightarrow> string list \<Rightarrow> int \<times> 'f event list" where
  "main ext posixly_correct prog args =
     (case init_config ext of
        None \<Rightarrow> (EXIT_FAILURE, [])
      | Some cfg \<Rightarrow>
          (case parse_cmdline ext posixly_correct prog args cfg of
             (index, cfg', d, out) \<Rightarrow>
               if index = 0 then (EXIT_SUCCESS, out)
               else if index < 0 then (EXIT_FAILURE, out)
               else
                 (case select_files ext (argv_of d) index of
                    (Some rc, files, out2) \<Rightarrow> (rc, out @ out2)
                  | (None, files, out2) \<Rightarrow>
                      (let ok = run_viewer ext cfg' files
                       in (if ok then EXIT_SUCCESS else EXIT_FAILURE,
                           out @ out2 @ [Run_viewer files ok])))))"

section \<open>Describing a run\<close>

text \<open>
  The values of \<^verbatim>\<open>getopt_long\<close> after which the loop goes on (unless a setter
  rejects the value), and those after which the program exits with success.
\<close>

definition continues :: "int \<Rightarrow> bool" where
  "continues opt =
     (opt = of_char CHR ''f'' \<or> opt = of_char CHR ''s'' \<or> opt = of_char CHR ''b'' \<or>
      opt = of_char CHR ''g'' \<or> opt = of_char CHR ''i'' \<or> opt = of_char CHR ''c'' \<or>
      opt = of_char CHR ''n'')"

definition early_exit :: "int \<Rightarrow> bool" where
  "early_exit opt = (opt = of_char CHR ''v'' \<or> opt = of_char CHR ''h'')"

text \<open>
  An event of a scan that is still going on: an option that continues, or a setter
  that accepted its value.
\<close>

fun quiet :: "'f event \<Rightarrow> bool" where
  "quiet (Getopt_long opt) = continues opt"
| "quiet (Set_scale_config a ok) = ok"
| "quiet (Set_background_config a ok) = ok"
| "quiet (Set_geometry_config a ok) = ok"
| "quiet (Set_appid_config a ok) = ok"
| "quiet e = False"

text \<open>A setter that rejected its value.\<close>

fun rejected :: "'f event \<Rightarrow> bool" where
  "rejected (Set_scale_config a ok) = (\<not> ok)"
| "rejected (Set_background_config a ok) = (\<not> ok)"
| "rejected (Set_geometry_config a ok) = (\<not> ok)"
| "rejected (Set_appid_config a ok) = (\<not> ok)"
| "rejected e = False"

fun is_stdout :: "'f event \<Rightarrow> bool" where
  "is_stdout (Stdout s) = True"
| "is_stdout e = False"

text \<open>
  The four ways the loop of \<^verbatim>\<open>parse_cmdline\<close> ends, and the events of each: the
  scanner reported the end of the options; an option asked for the help or the
  version; a setter rejected a value; the scanner returned a value that is no option
  of the program.
\<close>

datatype scan_end = Continue | Exit_success | Rejected_value | Invalid_argument

definition scan_shape :: "scan_end \<Rightarrow> int option \<Rightarrow> 'f event list \<Rightarrow> bool" where
  "scan_shape k r out =
     (case k of
        Continue \<Rightarrow> r = None \<and> (\<exists>pre. list_all quiet pre \<and> out = pre @ [Getopt_long (- 1)])
      | Exit_success \<Rightarrow> r = Some 0 \<and>
          (\<exists>pre x texts. list_all quiet pre \<and> early_exit x \<and> list_all is_stdout texts \<and>
             out = pre @ Getopt_long x # texts)
      | Rejected_value \<Rightarrow> r = Some (- 1) \<and>
          (\<exists>pre x e. list_all quiet pre \<and> continues x \<and> rejected e \<and>
             out = pre @ [Getopt_long x, e])
      | Invalid_argument \<Rightarrow> r = Some (- 1) \<and>
          (\<exists>pre x msg. list_all quiet pre \<and> \<not> continues x \<and> \<not> early_exit x \<and> x \<noteq> - 1 \<and>
             out = pre @ [Getopt_long x, Stderr msg]))"

text \<open>
  What the events of a run hold: a call of \<^verbatim>\<open>getopt_long\<close> that returned the help or
  the version option; one that returned a value that is no option of the program
  (\<^verbatim>\<open>'?'\<close>, for an unrecognized option or a missing argument); a setter that rejected
  its value; a call of \<^verbatim>\<open>init_file_list\<close> that returned no list; a call of
  \<^verbatim>\<open>run_viewer\<close> that returned \<open>ok\<close>.
\<close>

definition has_early :: "'f event list \<Rightarrow> bool" where
  "has_early out = (\<exists>x. early_exit x \<and> Getopt_long x \<in> set out)"

definition has_invalid :: "'f event list \<Rightarrow> bool" where
  "has_invalid out = (\<exists>x. Getopt_long x \<in> set out \<and> \<not> continues x \<and> \<not> early_exit x \<and> x \<noteq> - 1)"

definition has_rejected :: "'f event list \<Rightarrow> bool" where
  "has_rejected out = (\<exists>e \<in> set out. rejected e)"

definition has_no_files :: "'f event list \<Rightarrow> bool" where
  "has_no_files out = (\<exists>paths r. Init_file_list paths r False \<in> set out)"

definition has_viewer :: "bool \<Rightarrow> 'f event list \<Rightarrow> bool" where
  "has_viewer ok out = (\<exists>files. Run_viewer files ok \<in> set out)"

text \<open>
  What the theorems about the two flags ask of the collaborators, which are not part
  of \<^verbatim>\<open>main.c\<close>: a setter that accepts a value, and \<^verbatim>\<open>check_config\<close>, leave
  \<^verbatim>\<open>fullscreen\<close> as it is and do not switch \<^verbatim>\<open>sway_wm\<close> on.
\<close>

definition frame_setter ::
  "('a config_scheme \<Rightarrow> string option \<Rightarrow> 'a config_scheme option) \<Rightarrow> bool" where
  "frame_setter f =
     (\<forall>cfg a cfg'. f cfg a = Some cfg' \<longrightarrow>
        fullscreen cfg' = fullscreen cfg \<and> (sway_wm cfg' \<longrightarrow> sway_wm cfg))"

definition frame_ext :: "('a config_scheme, 'f) externals \<Rightarrow> bool" where
  "frame_ext ext =
     (frame_setter (set_scale_config ext) \<and> frame_setter (set_background_config ext) \<and>
      frame_setter (set_geometry_config ext) \<and> frame_setter (set_appid_config ext) \<and>
      (\<forall>cfg. fullscreen (check_config ext cfg) = fullscreen cfg \<and>
             (sway_wm (check_config ext cfg) \<longrightarrow> sway_wm cfg)))"

section \<open>The exit code of the specification\<close>

text \<open>
  The options that the scanner finds on a command line: the values that successive
  calls of \<^verbatim>\<open>getopt_long\<close> return, each with \<^verbatim>\<open>optarg\<close> after the call, up to the call
  that returns \<open>-1\<close>, and the state of the scanner after that call.
\<close>

function getopt_results :: "bool \<Rightarrow> getopt_data \<Rightarrow> (int \<times> string option) list \<times> getopt_data" where
  "getopt_results posixly_correct d =
     (case getopt_long posixly_correct short_opts options d of
        (opt, d') \<Rightarrow>
          if opt \<noteq> - 1 then
            (case getopt_results posixly_correct d' of
               (rs, dend) \<Rightarrow> ((opt, optarg d') # rs, dend))
          else ([], d'))"
  by pat_completeness auto
termination
  by (relation "measure (\<lambda>(pc, d). remaining d)")
     (auto dest: getopt_long_remaining [OF sym])

text \<open>
  The specification of what the options do, in its words: for each recognized option,
  in this order, the full screen flag sets \<^verbatim>\<open>fullscreen\<close> and clears \<^verbatim>\<open>sway_wm\<close>; a
  scale, background, geometry or class value goes to its setter, and a rejection ends
  the scan with a failure; the information flag sets \<^verbatim>\<open>show_info\<close>; the no-sway flag
  clears \<^verbatim>\<open>sway_wm\<close>; the version and help flags end the scan with success; anything
  else ends it with a failure. The result is the way the scan ends and the
  configuration then.
\<close>

fun apply_options ::
  "('a config_scheme, 'f) externals \<Rightarrow> 'a config_scheme \<Rightarrow> (int \<times> string option) list \<Rightarrow>
   scan_end \<times> 'a config_scheme" where
  "apply_options ext cfg [] = (Continue, cfg)"
| "apply_options ext cfg ((opt, arg) # rest) =
     (if opt = of_char CHR ''f'' then
        apply_options ext (cfg\<lparr>fullscreen := True, sway_wm := False\<rparr>) rest
      else if opt = of_char CHR ''s'' then
        (case set_scale_config ext cfg arg of
           None \<Rightarrow> (Rejected_value, cfg)
         | Some cfg' \<Rightarrow> apply_options ext cfg' rest)
      else if opt = of_char CHR ''b'' then
        (case set_background_config ext cfg arg of
           None \<Rightarrow> (Rejected_value, cfg)
         | Some cfg' \<Rightarrow> apply_options ext cfg' rest)
      else if opt = of_char CHR ''g'' then
        (case set_geometry_config ext cfg arg of
           None \<Rightarrow> (Rejected_value, cfg)
         | Some cfg' \<Rightarrow> apply_options ext cfg' rest)
      else if opt = of_char CHR ''i'' then
        apply_options ext (cfg\<lparr>show_info := True\<rparr>) rest
      else if opt = of_char CHR ''c'' then
        (case set_appid_config ext cfg arg of
           None \<Rightarrow> (Rejected_value, cfg)
         | Some cfg' \<Rightarrow> apply_options ext cfg' rest)
      else if opt = of_char CHR ''n'' then
        apply_options ext (cfg\<lparr>sway_wm := False\<rparr>) rest
      else if opt = of_char CHR ''v'' \<or> opt = of_char CHR ''h'' then (Exit_success, cfg)
      else (Invalid_argument, cfg))"

text \<open>
  The exit code, in the words of the specification: 0 on help or version, or when the
  viewer ran with success; 1 on a parse error, on an option value that its setter
  rejects, on an empty file enumeration and on a failure of the viewer. The viewer
  gets the validated configuration and the file set of the arguments that the scan
  left: the current directory for none, the standard input for \<^verbatim>\<open>-\<close> alone, these
  arguments otherwise. Without a configuration the code is 1.
\<close>

definition exit_code_spec ::
  "('a config_scheme, 'f) externals \<Rightarrow> bool \<Rightarrow> string \<Rightarrow> string list \<Rightarrow> int" where
  "exit_code_spec ext posixly_correct prog args =
     (case init_config ext of
        None \<Rightarrow> 1
      | Some cfg \<Rightarrow>
          (case getopt_results posixly_correct (getopt_start prog args) of
             (rs, d) \<Rightarrow>
               (case apply_options ext cfg rs of
                  (k, c) \<Rightarrow>
                    (case k of
                       Exit_success \<Rightarrow> 0
                     | Rejected_value \<Rightarrow> 1
                     | Invalid_argument \<Rightarrow> 1
                     | Continue \<Rightarrow>
                         (let ps = drop (optind_of d) (argv_of d)
                          in if ps = [''-''] then
                               (if run_viewer ext (check_config ext c) None then 0 else 1)
                             else
                               (case init_file_list ext (if ps = [] then [''.''] else ps) True of
                                  None \<Rightarrow> 1
                                | Some files \<Rightarrow>
                                    if run_viewer ext (check_config ext c) (Some files) then 0
                                    else 1))))))"

section \<open>The tokens of the command line\<close>












text \<open>
  A sample of the collaborators, to run the program on: the scale is one of three
  words, the other setters take any value, an empty list of paths gives no file list,
  and the viewer succeeds.
\<close>

definition sample_config :: config where
  "sample_config = \<lparr>fullscreen = False, sway_wm = True, show_info = False\<rparr>"

definition sample_ext :: "(config, string list) externals" where
  "sample_ext =
     \<lparr>APP_NAME = ''swayimg'', APP_VERSION = ''1.0'', supported_formats = ''png'',
      init_config = Some sample_config,
      check_config = (\<lambda>cfg. cfg),
      set_scale_config =
        (\<lambda>cfg a. if a = Some ''default'' \<or> a = Some ''fit'' \<or> a = Some ''real''
                  then Some cfg else None),
      set_background_config = (\<lambda>cfg a. Some cfg),
      set_geometry_config = (\<lambda>cfg a. Some cfg),
      set_appid_config = (\<lambda>cfg a. Some cfg),
      init_file_list = (\<lambda>paths r. if paths = [] then None else Some paths),
      run_viewer = (\<lambda>cfg files. True)\<rparr>"

declare parse_loop.simps [simp del]

declare getopt_results.simps [simp del]

section \<open>The short options string: lemmas\<close>

lemma store_append:
  "store (pre @ x # post) (length pre) c = Some (pre @ Some c # post)"
  by (simp add: store_def)

lemma compose_loop_append:
  "no_optional table \<Longrightarrow> length (short_spec table) \<le> length post \<Longrightarrow>
   compose_loop table (pre @ post) (length pre) =
     Some (pre @ map Some (short_spec table) @ drop (length (short_spec table)) post,
           length pre + length (short_spec table))"
proof (induction table arbitrary: pre post)
  case Nil
  then show ?case by (simp add: short_spec_def)
next
  case (Cons opt rest)
  have no: "no_optional rest" and ha: "has_arg opt \<noteq> optional_argument"
    using Cons.prems(1) by (simp_all add: no_optional_def)
  have split: "short_spec (opt # rest) = short_spec_entry opt @ short_spec rest"
    by (simp add: short_spec_def)
  show ?case
  proof (cases "val opt = CHR 0x00")
    case True
    then have "short_spec (opt # rest) = short_spec rest"
      by (simp add: split short_spec_entry_def)
    with True Cons.IH [OF no, of post pre] Cons.prems(2) show ?thesis by simp
  next
    case nz: False
    show ?thesis
    proof (cases "has_arg opt = no_argument")
      case True
      then have e: "short_spec_entry opt = [val opt]"
        using nz by (simp add: short_spec_entry_def)
      from Cons.prems(2) obtain x post' where post: "post = x # post'"
        by (cases post) (simp_all add: split e)
      have len: "length (short_spec rest) \<le> length post'"
        using Cons.prems(2) by (simp add: split e post)
      have "compose_loop rest ((pre @ [Some (val opt)]) @ post') (length (pre @ [Some (val opt)])) =
            Some ((pre @ [Some (val opt)]) @ map Some (short_spec rest) @ drop (length (short_spec rest)) post',
                  length (pre @ [Some (val opt)]) + length (short_spec rest))"
        by (rule Cons.IH [OF no len])
      then show ?thesis
        using nz True by (simp add: post store_append split e)
    next
      case False
      with ha have req: "has_arg opt = required_argument" by (cases "has_arg opt") simp_all
      then have e: "short_spec_entry opt = [val opt, CHR '':'']"
        using nz by (simp add: short_spec_entry_def)
      from Cons.prems(2) obtain x y post' where post: "post = x # y # post'"
        by (cases post; cases "tl post") (simp_all add: split e)
      have len: "length (short_spec rest) \<le> length post'"
        using Cons.prems(2) by (simp add: split e post)
      have st2: "store (pre @ Some (val opt) # y # post') (Suc (length pre)) CHR '':'' =
                 Some (pre @ Some (val opt) # Some CHR '':'' # post')"
        using store_append [of "pre @ [Some (val opt)]" y post' "CHR '':''"] by simp
      have "compose_loop rest ((pre @ [Some (val opt), Some CHR '':'']) @ post')
              (length (pre @ [Some (val opt), Some CHR '':''])) =
            Some ((pre @ [Some (val opt), Some CHR '':'']) @ map Some (short_spec rest) @
                    drop (length (short_spec rest)) post',
                  length (pre @ [Some (val opt), Some CHR '':'']) + length (short_spec rest))"
        by (rule Cons.IH [OF no len])
      then show ?thesis
        using nz req by (simp add: post store_append st2 split e)
    qed
  qed
qed

lemma short_spec_entry_length: "length (short_spec_entry opt) \<le> 2"
  by (simp add: short_spec_entry_def)

lemma short_spec_length: "length (short_spec table) \<le> 2 * length table"
proof (induction table)
  case Nil
  show ?case by (simp add: short_spec_def)
next
  case (Cons opt rest)
  have "short_spec (opt # rest) = short_spec_entry opt @ short_spec rest"
    by (simp add: short_spec_def)
  with Cons short_spec_entry_length [of opt] show ?case by simp
qed

lemma short_spec_snoc:
  "short_spec (table @ [opt]) = short_spec table @ short_spec_entry opt"
  by (simp add: short_spec_def)

lemma short_spec_terminated:
  assumes "terminated table"
  shows "length (short_spec table) \<le> 2 * (length table - 1)"
proof -
  from assms have ne: "table \<noteq> []" and z: "val (last table) = CHR 0x00"
    by (simp_all add: terminated_def)
  have "short_spec table = short_spec (butlast table @ [last table])"
    using ne by simp
  also have "\<dots> = short_spec (butlast table)"
    using z by (simp add: short_spec_snoc short_spec_entry_def)
  finally show ?thesis
    using short_spec_length [of "butlast table"] by simp
qed

lemma short_spec_no_null: "CHR 0x00 \<notin> set (short_spec table)"
  by (induction table) (auto simp: short_spec_def short_spec_entry_def)

lemma c_str_terminated:
  "CHR 0x00 \<notin> set s \<Longrightarrow> c_str (map Some s @ Some (CHR 0x00) # rest) = Some s"
  by (induction s) auto

lemma compose_short_opts_eq:
  assumes t: "terminated table" and n: "no_optional table"
  shows "\<exists>rest. compose_short_opts table =
           Some (map Some (short_spec table) @ Some (CHR 0x00) # rest, length (short_spec table))"
proof -
  let ?s = "short_spec table"
  let ?post = "replicate (2 * length table) (None :: char option)"
  from t have ne: "table \<noteq> []" by (simp add: terminated_def)
  have lt: "length ?s < 2 * length table"
    using short_spec_terminated [OF t] ne by (cases table) simp_all
  then have le: "length ?s \<le> length ?post" by simp
  have loop: "compose_loop table ?post 0 = Some (map Some ?s @ drop (length ?s) ?post, length ?s)"
    using compose_loop_append [OF n le, of "[]"] by simp
  from lt obtain k where k: "2 * length table - length ?s = Suc k"
    by (cases "2 * length table - length ?s") simp_all
  have st: "store (map Some ?s @ None # replicate k None) (length (map Some ?s)) (CHR 0x00) =
        Some (map Some ?s @ Some (CHR 0x00) # replicate k None)"
    by (rule store_append)
  show ?thesis
    using st by (simp add: compose_short_opts_def loop k)
qed

lemma options_ok: "terminated options \<and> no_optional options"
  by (simp add: terminated_def no_optional_def options_def)

lemma short_spec_options: "short_spec options = ''fs:b:g:ic:nvh''"
  by (simp add: short_spec_def short_spec_entry_def options_def)


lemma store_Some: "p < length buf \<Longrightarrow> \<exists>buf'. store buf p c = Some buf' \<and> length buf' = length buf"
  by (simp add: store_def)

lemma compose_loop_bound:
  "p + 2 * shorts table \<le> length buf \<Longrightarrow>
   \<exists>buf' p'. compose_loop table buf p = Some (buf', p') \<and> length buf' = length buf \<and>
     p' \<le> p + 2 * shorts table"
proof (induction table arbitrary: buf p)
  case Nil
  then show ?case by simp
next
  case (Cons opt rest)
  show ?case
  proof (cases "val opt = CHR 0x00")
    case True
    with Cons.prems have "p + 2 * shorts rest \<le> length buf" by (simp add: shorts_def)
    from Cons.IH [OF this] True show ?thesis by (simp add: shorts_def)
  next
    case nz: False
    with Cons.prems have room: "p + 2 + 2 * shorts rest \<le> length buf"
      by (simp add: shorts_def)
    then obtain buf1 where b1: "store buf p (val opt) = Some buf1" "length buf1 = length buf"
      using store_Some [of p buf "val opt"] by auto
    show ?thesis
    proof (cases "has_arg opt = no_argument")
      case True
      from room b1 have "(p + 1) + 2 * shorts rest \<le> length buf1" by simp
      from Cons.IH [OF this] obtain buf' p' where
        "compose_loop rest buf1 (p + 1) = Some (buf', p')" "length buf' = length buf1"
        "p' \<le> (p + 1) + 2 * shorts rest" by blast
      with nz True b1 show ?thesis by (simp add: shorts_def)
    next
      case False
      from room b1 obtain buf2 where
        b2: "store buf1 (p + 1) CHR '':'' = Some buf2" "length buf2 = length buf1"
        using store_Some [of "p + 1" buf1 "CHR '':''"] by auto
      from room b1 b2 have "(p + 2) + 2 * shorts rest \<le> length buf2" by simp
      from Cons.IH [OF this] obtain buf' p' where
        "compose_loop rest buf2 (p + 2) = Some (buf', p')" "length buf' = length buf2"
        "p' \<le> (p + 2) + 2 * shorts rest" by blast
      with nz False b1 b2 show ?thesis by (simp add: shorts_def)
    qed
  qed
qed

lemma shorts_terminated: "terminated table \<Longrightarrow> shorts table \<le> length table - 1"
proof -
  assume t: "terminated table"
  then obtain xs x where tx: "table = xs @ [x]"
    by (cases table rule: rev_cases) (simp_all add: terminated_def)
  with t have "val x = CHR 0x00" by (simp add: terminated_def)
  then have "shorts table = shorts xs" by (simp add: tx shorts_def)
  also have "\<dots> \<le> length xs" by (simp add: shorts_def)
  finally show ?thesis by (simp add: tx)
qed

lemma terminated_options: "terminated options"
  by (simp add: terminated_def options_def)

lemma length_options: "length options = 10"
  by (simp add: options_def)

section \<open>The short options string: results\<close>

text \<open>
  C7. For a table that ends with the terminating entry and whose arities are none or
  required, composing the short options string succeeds and the buffer, read as a C
  string, is \<open>short_spec\<close> of the table: for every entry with a non-zero short
  character, in the order of the table, that character, followed by a colon exactly
  when the arity is required-argument, and nothing else before the terminating null.
  The result is a function of the table alone.
\<close>

theorem short_opts_spec:
  assumes "terminated table" and "no_optional table"
  shows "\<exists>buf p. compose_short_opts table = Some (buf, p) \<and> c_str buf = Some (short_spec table)"
proof -
  from compose_short_opts_eq [OF assms] obtain rest where
    "compose_short_opts table =
       Some (map Some (short_spec table) @ Some (CHR 0x00) # rest, length (short_spec table))"
    by blast
  moreover have "c_str (map Some (short_spec table) @ Some (CHR 0x00) # rest) =
      Some (short_spec table)"
    by (rule c_str_terminated [OF short_spec_no_null])
  ultimately show ?thesis by blast
qed

text \<open>For the table of the program the string is \<^verbatim>\<open>fs:b:g:ic:nvh\<close>.\<close>

theorem short_opts_spec_witness:
  "(terminated options \<and> no_optional options) \<and>
   (\<exists>buf p. compose_short_opts options = Some (buf, p) \<and> c_str buf = Some ''fs:b:g:ic:nvh'')"
  using short_opts_spec [of options] options_ok by (simp add: short_spec_options)

text \<open>
  C9. For a table of \<open>N\<close> entries that ends with the terminating entry, every
  write of the composition is inside the buffer of \<open>2 * N\<close> cells (the composition
  returns a buffer, not \<open>None\<close>). The terminating null is written at offset \<open>p\<close>,
  after \<open>p\<close> characters, so \<open>p + 1\<close> characters are written: at most
  \<open>2 * (N - 1) + 1\<close>, which is within the \<open>2 * N\<close> cells.
\<close>

theorem compose_short_opts_in_bounds:
  assumes "terminated table"
  shows "\<exists>buf p. compose_short_opts table = Some (buf, p) \<and>
           length buf = 2 * length table \<and>
           p + 1 \<le> 2 * (length table - 1) + 1 \<and>
           2 * (length table - 1) + 1 \<le> length buf"
proof -
  let ?b = "replicate (2 * length table) (None :: char option)"
  from assms have ne: "0 < length table" by (simp add: terminated_def)
  have s: "shorts table \<le> length table - 1" by (rule shorts_terminated [OF assms])
  then have "0 + 2 * shorts table \<le> length ?b" using ne by simp
  from compose_loop_bound [OF this] obtain buf' p' where
    l: "compose_loop table ?b 0 = Some (buf', p')" "length buf' = length ?b"
       "p' \<le> 0 + 2 * shorts table" by blast
  from l s ne have lt: "p' < length buf'" by (cases table) simp_all
  from store_Some [OF lt, of "CHR 0x00"] obtain buf where
    b: "store buf' p' (CHR 0x00) = Some buf" "length buf = length buf'" by blast
  have "compose_short_opts table = Some (buf, p')"
    by (simp add: compose_short_opts_def l b)
  moreover have "length buf = 2 * length table" using b l by simp
  moreover have "p' + 1 \<le> 2 * (length table - 1) + 1" using l s by simp
  moreover have "2 * (length table - 1) + 1 \<le> length buf" using b l ne by (cases table) simp_all
  ultimately show ?thesis by blast
qed

theorem compose_short_opts_in_bounds_witness:
  "terminated options \<and>
   (\<exists>buf p. compose_short_opts options = Some (buf, p) \<and> length buf = 20 \<and> p + 1 \<le> 19)"
proof -
  from compose_short_opts_in_bounds [OF terminated_options] obtain buf p where
    "compose_short_opts options = Some (buf, p)" "length buf = 2 * length options"
    "p + 1 \<le> 2 * (length options - 1) + 1" by blast
  then have "compose_short_opts options = Some (buf, p) \<and> length buf = 20 \<and> p + 1 \<le> 19"
    by (simp add: length_options)
  with terminated_options show ?thesis by blast
qed

section \<open>The scan: lemmas\<close>

lemma call_setter_cases:
  assumes "call_setter f ev cfg a = (r, cfg', out)"
  shows "(r = None \<and> f cfg a = Some cfg' \<and> out = [ev a True]) \<or>
         (r = Some (- 1) \<and> f cfg a = None \<and> out = [ev a False])"
  using assms by (auto simp: call_setter_def split: option.splits)

lemma switch_opt_continue:
  assumes "switch_opt ext opt d cfg = (None, cfg', out)"
  shows "continues opt \<and> list_all quiet out"
  using assms
  by (auto simp: switch_opt_def continues_def call_setter_def split: if_splits option.splits)

lemma print_help_stdout: "list_all is_stdout (print_help ext)"
  by (simp add: print_help_def)

lemma switch_opt_return:
  assumes "switch_opt ext opt d cfg = (Some rc, cfg', out)"
  shows "(early_exit opt \<and> rc = 0 \<and> list_all is_stdout out) \<or>
         (continues opt \<and> rc = - 1 \<and> (\<exists>e. rejected e \<and> out = [e])) \<or>
         (\<not> continues opt \<and> \<not> early_exit opt \<and> rc = - 1 \<and> (\<exists>msg. out = [Stderr msg]))"
  using assms
  by (auto simp: switch_opt_def continues_def early_exit_def call_setter_def print_help_stdout
      split: if_splits option.splits)

lemma parse_loop_shape:
  "parse_loop ext pc d cfg = (r, cfg', d', out) \<Longrightarrow> \<exists>k. scan_shape k r (out :: 'f event list)"
proof (induction ext pc d cfg arbitrary: r cfg' d' out rule: parse_loop.induct)
  case (1 ext pc d cfg)
  obtain opt d1 where g: "getopt_long pc short_opts options d = (opt, d1)"
    by (cases "getopt_long pc short_opts options d")
  show ?case
  proof (cases "opt = - 1")
    case True
    with "1.prems" g have "r = None" "out = [Getopt_long (- 1)]"
      by (simp_all add: parse_loop.simps [of ext pc d cfg])
    then have "scan_shape Continue r out"
      by (simp add: scan_shape_def)
    then show ?thesis ..
  next
    case False
    obtain r1 cfg1 out1 where s: "switch_opt ext opt d1 cfg = (r1, cfg1, out1)"
      by (cases "switch_opt ext opt d1 cfg")
    show ?thesis
    proof (cases r1)
      case (Some rc)
      with "1.prems" g s False have r: "r = Some rc" and o: "out = Getopt_long opt # out1"
        by (simp_all add: parse_loop.simps [of ext pc d cfg])
      from switch_opt_return [OF s [unfolded Some]]
      consider "early_exit opt" "rc = 0" "list_all is_stdout out1"
        | e where "continues opt" "rc = - 1" "rejected e" "out1 = [e]"
        | msg where "\<not> continues opt" "\<not> early_exit opt" "rc = - 1" "out1 = [Stderr msg]"
        by blast
      then show ?thesis
      proof cases
        case 1
        then have "scan_shape Exit_success r out"
          unfolding scan_shape_def using r o
          by (auto intro!: exI [of _ "[]"])
        then show ?thesis ..
      next
        case 2
        then have "scan_shape Rejected_value r out"
          unfolding scan_shape_def using r o
          by (auto intro!: exI [of _ "[]"])
        then show ?thesis ..
      next
        case 3
        then have "scan_shape Invalid_argument r out"
          unfolding scan_shape_def using r o False
          by (auto intro!: exI [of _ "[]"])
        then show ?thesis ..
      qed
    next
      case None
      obtain r2 cfg2 d2 out2 where p: "parse_loop ext pc d1 cfg1 = (r2, cfg2, d2, out2)"
        by (cases "parse_loop ext pc d1 cfg1") auto
      with "1.prems" g s False None have r: "r = r2"
        and o: "out = (Getopt_long opt # out1) @ out2"
        by (simp_all add: parse_loop.simps [of ext pc d cfg])
      from switch_opt_continue [OF s [unfolded None]]
      have q: "list_all quiet (Getopt_long opt # out1)" by simp
      from "1.IH" [OF g [symmetric] False s [unfolded None, symmetric] refl refl p]
      obtain k where k: "scan_shape k r2 out2" ..
      have "scan_shape k r out"
      proof (cases k)
        case Continue
        with k obtain pre where "r2 = None" "list_all quiet pre" "out2 = pre @ [Getopt_long (- 1)]"
          by (auto simp: scan_shape_def)
        with q have "r = None \<and> list_all quiet ((Getopt_long opt # out1) @ pre) \<and>
            out = ((Getopt_long opt # out1) @ pre) @ [Getopt_long (- 1)]"
          using r o by simp
        then show ?thesis unfolding scan_shape_def Continue by (simp only: scan_end.case) blast
      next
        case Exit_success
        with k obtain pre x texts where "r2 = Some 0" "list_all quiet pre" "early_exit x"
          "list_all is_stdout texts" "out2 = pre @ Getopt_long x # texts"
          by (auto simp: scan_shape_def)
        with q have "r = Some 0 \<and> list_all quiet ((Getopt_long opt # out1) @ pre) \<and> early_exit x \<and>
            list_all is_stdout texts \<and> out = ((Getopt_long opt # out1) @ pre) @ Getopt_long x # texts"
          using r o by simp
        then show ?thesis unfolding scan_shape_def Exit_success by (simp only: scan_end.case) blast
      next
        case Rejected_value
        with k obtain pre x e where "r2 = Some (- 1)" "list_all quiet pre" "continues x"
          "rejected e" "out2 = pre @ [Getopt_long x, e]"
          by (auto simp: scan_shape_def)
        with q have "r = Some (- 1) \<and> list_all quiet ((Getopt_long opt # out1) @ pre) \<and> continues x \<and>
            rejected e \<and> out = ((Getopt_long opt # out1) @ pre) @ [Getopt_long x, e]"
          using r o by simp
        then show ?thesis unfolding scan_shape_def Rejected_value by (simp only: scan_end.case) blast
      next
        case Invalid_argument
        with k obtain pre x msg where "r2 = Some (- 1)" "list_all quiet pre" "\<not> continues x"
          "\<not> early_exit x" "x \<noteq> - 1" "out2 = pre @ [Getopt_long x, Stderr msg]"
          by (auto simp: scan_shape_def)
        with q have "r = Some (- 1) \<and> list_all quiet ((Getopt_long opt # out1) @ pre) \<and> \<not> continues x \<and>
            \<not> early_exit x \<and> x \<noteq> - 1 \<and> out = ((Getopt_long opt # out1) @ pre) @ [Getopt_long x, Stderr msg]"
          using r o by simp
        then show ?thesis unfolding scan_shape_def Invalid_argument by (simp only: scan_end.case) blast
      qed
      then show ?thesis ..
    qed
  qed
qed

lemma long_found_scanned: "long_found os p arg d = (r, d') \<Longrightarrow> scanned d' = scanned d"
  by (auto simp: long_found_def split: option.splits if_splits list.splits)

lemma process_long_option_scanned:
  assumes "process_long_option os lo d tok = (r, d')"
  shows "scanned d' = scanned d"
proof -
  let ?d1 = "d\<lparr>recent := recent d @ [tok], todo := tl (todo d), nextchar := []\<rparr>"
  from assms have "d' = ?d1 \<or> (\<exists>p. long_found os p (long_arg (drop 2 tok)) ?d1 = (r, d'))"
    by (auto simp: process_long_option_def Let_def split: option.splits list.splits if_splits)
  then show ?thesis using long_found_scanned by fastforce
qed

lemma short_option_scanned: "short_option os d = (r, d') \<Longrightarrow> scanned d' = scanned d"
  by (auto simp: short_option_def Let_def split: list.splits if_splits)

lemma getopt_long_cases:
  assumes "getopt_long pc os lo d = (r, d')"
    and "d1 = advance (getopt_ordering pc os) (d\<lparr>optarg := None\<rparr>)"
  obtains
    (cluster) "nextchar d \<noteq> []" "short_option (skip_prefix os) (d\<lparr>optarg := None\<rparr>) = (r, d')"
  | (finished) "nextchar d = []" "todo d1 = []" "r = - 1" "d' = finish d1"
  | (dashes) rest where "nextchar d = []" "todo d1 = ''--'' # rest" "r = - 1"
      "d' = finish (end_of_options d1)"
  | (stop) tok rest where "nextchar d = []" "todo d1 = tok # rest" "tok \<noteq> ''--''"
      "NONOPTION_P tok" "getopt_ordering pc os = REQUIRE_ORDER" "r = - 1" "d' = d1"
  | (in_order) tok rest where "nextchar d = []" "todo d1 = tok # rest" "tok \<noteq> ''--''"
      "NONOPTION_P tok" "getopt_ordering pc os \<noteq> REQUIRE_ORDER" "r = 1"
      "d' = d1\<lparr>optarg := Some tok, recent := recent d1 @ [tok], todo := rest\<rparr>"
  | (long) tok rest where "nextchar d = []" "todo d1 = tok # rest" "tok \<noteq> ''--''"
      "\<not> NONOPTION_P tok" "process_long_option (skip_prefix os) lo d1 tok = (r, d')"
      "\<exists>nm. tok = CHR ''-'' # CHR ''-'' # nm"
  | (short) tok rest where "nextchar d = []" "todo d1 = tok # rest" "tok \<noteq> ''--''"
      "\<not> NONOPTION_P tok" "tl tok \<noteq> []"
      "short_option (skip_prefix os) (d1\<lparr>cur := tok, nextchar := tl tok, todo := rest\<rparr>) = (r, d')"
      "\<exists>c cs. tok = CHR ''-'' # c # cs \<and> c \<noteq> CHR ''-''"
proof (cases "nextchar d = []")
  case False
  with assms(1) have "short_option (skip_prefix os) (d\<lparr>optarg := None\<rparr>) = (r, d')"
    by (simp add: getopt_long_def Let_def)
  with False show thesis by (rule cluster)
next
  case nc: True
  show thesis
  proof (cases "todo d1")
    case Nil
    with assms nc have "r = - 1" "d' = finish d1"
      by (simp_all add: getopt_long_def Let_def)
    with nc Nil show thesis by (intro finished)
  next
    case (Cons tok rest)
    have nt: "\<not> NONOPTION_P tok \<Longrightarrow> tl tok \<noteq> []"
      by (cases tok) (simp_all add: NONOPTION_P_def)
    have lg: "\<not> NONOPTION_P tok \<Longrightarrow> (case tl tok of [] \<Rightarrow> False | x # xs \<Rightarrow> x = CHR ''-'') \<Longrightarrow>
        \<exists>nm. tok = CHR ''-'' # CHR ''-'' # nm"
      by (cases tok; cases "tl tok") (auto simp: NONOPTION_P_def)
    have sh: "\<not> NONOPTION_P tok \<Longrightarrow> \<not> (case tl tok of [] \<Rightarrow> False | x # xs \<Rightarrow> x = CHR ''-'') \<Longrightarrow>
        \<exists>c cs. tok = CHR ''-'' # c # cs \<and> c \<noteq> CHR ''-''"
      by (cases tok; cases "tl tok") (auto simp: NONOPTION_P_def)
    from assms(2) nc Cons have "getopt_long pc os lo d =
        (if tok = ''--'' then (- 1, finish (end_of_options d1))
         else if NONOPTION_P tok then
           (if getopt_ordering pc os = REQUIRE_ORDER then (- 1, d1)
            else (1, d1\<lparr>optarg := Some tok, recent := recent d1 @ [tok], todo := rest\<rparr>))
         else if (case tl tok of [] \<Rightarrow> False | x # xs \<Rightarrow> x = CHR ''-'') then
           process_long_option (skip_prefix os) lo d1 tok
         else short_option (skip_prefix os) (d1\<lparr>cur := tok, nextchar := tl tok, todo := rest\<rparr>))"
      by (simp add: getopt_long_def Let_def)
    with assms(1) have g: "(r, d') =
        (if tok = ''--'' then (- 1, finish (end_of_options d1))
         else if NONOPTION_P tok then
           (if getopt_ordering pc os = REQUIRE_ORDER then (- 1, d1)
            else (1, d1\<lparr>optarg := Some tok, recent := recent d1 @ [tok], todo := rest\<rparr>))
         else if (case tl tok of [] \<Rightarrow> False | x # xs \<Rightarrow> x = CHR ''-'') then
           process_long_option (skip_prefix os) lo d1 tok
         else short_option (skip_prefix os) (d1\<lparr>cur := tok, nextchar := tl tok, todo := rest\<rparr>))"
      by (simp only:)
    show thesis
    proof (cases "tok = ''--''")
      case True
      with g Cons nc show thesis by (intro dashes [of rest]) simp_all
    next
      case nd: False
      show thesis
      proof (cases "NONOPTION_P tok")
        case True
        show thesis
        proof (cases "getopt_ordering pc os = REQUIRE_ORDER")
          case True
          with g nd \<open>NONOPTION_P tok\<close> Cons nc show thesis by (intro stop [of tok rest]) simp_all
        next
          case False
          with g nd \<open>NONOPTION_P tok\<close> Cons nc show thesis
            by (intro in_order [of tok rest]) simp_all
        qed
      next
        case no: False
        show thesis
        proof (cases "(case tl tok of [] \<Rightarrow> False | x # xs \<Rightarrow> x = CHR ''-'')")
          case True
          with g nd no Cons nc lg show thesis by (intro long [of tok rest]) simp_all
        next
          case False
          with g nd no Cons nc nt sh show thesis by (intro short [of tok rest]) simp_all
        qed
      qed
    qed
  qed
qed

lemma permute_skip_scanned: "scanned d \<noteq> [] \<Longrightarrow> scanned (permute_skip d) \<noteq> []"
  by (simp add: permute_skip_def)

lemma getopt_long_scanned:
  assumes "getopt_long pc os lo d = (r, d')" and "scanned d \<noteq> []"
  shows "scanned d' \<noteq> []"
proof -
  define d1 where "d1 = advance (getopt_ordering pc os) (d\<lparr>optarg := None\<rparr>)"
  have s1: "scanned d1 \<noteq> []" using assms(2) by (simp add: d1_def advance_def permute_skip_def)
  from assms(1) d1_def show ?thesis
  proof (cases rule: getopt_long_cases)
    case cluster
    from short_option_scanned [OF cluster(2)] assms(2) show ?thesis by simp
  next
    case finished
    with s1 show ?thesis by (simp add: finish_def)
  next
    case (dashes rest)
    with s1 show ?thesis by (simp add: finish_def end_of_options_def)
  next
    case (stop tok rest)
    with s1 show ?thesis by simp
  next
    case (in_order tok rest)
    with s1 show ?thesis by simp
  next
    case (long tok rest)
    from process_long_option_scanned [OF long(5)] s1 show ?thesis by simp
  next
    case (short tok rest)
    from short_option_scanned [OF short(6)] s1 show ?thesis by simp
  qed
qed

lemma parse_loop_scanned:
  "parse_loop ext pc d cfg = (r, cfg', d', out) \<Longrightarrow> scanned d \<noteq> [] \<Longrightarrow> scanned d' \<noteq> []"
proof (induction ext pc d cfg arbitrary: r cfg' d' out rule: parse_loop.induct)
  case (1 ext pc d cfg)
  obtain opt d1 where g: "getopt_long pc short_opts options d = (opt, d1)"
    by (cases "getopt_long pc short_opts options d")
  have s1: "scanned d1 \<noteq> []" by (rule getopt_long_scanned [OF g "1.prems"(2)])
  show ?case
  proof (cases "opt = - 1")
    case True
    with "1.prems" g have "d' = d1" by (simp add: parse_loop.simps [of ext pc d cfg])
    with s1 show ?thesis by simp
  next
    case False
    obtain r1 cfg1 out1 where s: "switch_opt ext opt d1 cfg = (r1, cfg1, out1)"
      by (cases "switch_opt ext opt d1 cfg")
    show ?thesis
    proof (cases r1)
      case (Some rc)
      with "1.prems" g s False have "d' = d1" by (simp add: parse_loop.simps [of ext pc d cfg])
      with s1 show ?thesis by simp
    next
      case None
      obtain r2 cfg2 d2 out2 where p: "parse_loop ext pc d1 cfg1 = (r2, cfg2, d2, out2)"
        by (cases "parse_loop ext pc d1 cfg1") auto
      with "1.prems" g s False None have "d' = d2"
        by (simp add: parse_loop.simps [of ext pc d cfg])
      with "1.IH" [OF g [symmetric] False s [unfolded None, symmetric] refl refl p s1]
      show ?thesis by simp
    qed
  qed
qed

lemma optind_le_argc: "optind_of d \<le> length (argv_of d)"
  by (simp add: optind_of_def argv_of_def)

text \<open>The ways \<^verbatim>\<open>parse_cmdline\<close> ends.\<close>

lemma parse_cmdline_cases:
  assumes "parse_cmdline ext pc prog args cfg = (index, cfg', d, out)"
  obtains (continue) lo cfg1 where
      "parse_loop ext pc (getopt_start prog args) cfg = (None, cfg1, d, lo)"
      "scan_shape Continue None lo" "out = lo @ [Check_config]" "cfg' = check_config ext cfg1"
      "index = int (optind_of d)" "0 < index" "nat index \<le> length (argv_of d)"
    | (exit) "scan_shape Exit_success (Some 0) out" "index = 0"
        "parse_loop ext pc (getopt_start prog args) cfg = (Some 0, cfg', d, out)"
    | (failure) k where "k = Rejected_value \<or> k = Invalid_argument"
        "scan_shape k (Some (- 1)) out" "index = - 1"
        "parse_loop ext pc (getopt_start prog args) cfg = (Some (- 1), cfg', d, out)"
proof -
  obtain r cfg1 d1 lo where p: "parse_loop ext pc (getopt_start prog args) cfg = (r, cfg1, d1, lo)"
    by (cases "parse_loop ext pc (getopt_start prog args) cfg") auto
  from parse_loop_shape [OF p] obtain k where k: "scan_shape k r lo" ..
  have sc: "scanned d1 \<noteq> []"
    by (rule parse_loop_scanned [OF p]) (simp add: getopt_start_def)
  then have pos: "0 < optind_of d1" by (simp add: optind_of_def)
  show thesis
  proof (cases k)
    case Continue
    with k have r: "r = None" by (simp add: scan_shape_def)
    with assms p have "out = lo @ [Check_config]" "cfg' = check_config ext cfg1"
      "index = int (optind_of d1)" "d = d1"
      by (auto simp: parse_cmdline_def)
    with p k r Continue pos optind_le_argc [of d1] show ?thesis
      by (intro continue [of cfg1 lo]) simp_all
  next
    case Exit_success
    with k have r: "r = Some 0" by (simp add: scan_shape_def)
    with assms p have "out = lo" "index = 0" "d = d1" "cfg' = cfg1"
      by (auto simp: parse_cmdline_def)
    with p k r Exit_success show ?thesis by (intro exit) simp_all
  next
    case Rejected_value
    with k have r: "r = Some (- 1)" by (simp add: scan_shape_def)
    with assms p have "out = lo" "index = - 1" "d = d1" "cfg' = cfg1"
      by (auto simp: parse_cmdline_def)
    with p k r Rejected_value show ?thesis by (intro failure [of k]) simp_all
  next
    case Invalid_argument
    with k have r: "r = Some (- 1)" by (simp add: scan_shape_def)
    with assms p have "out = lo" "index = - 1" "d = d1" "cfg' = cfg1"
      by (auto simp: parse_cmdline_def)
    with p k r Invalid_argument show ?thesis by (intro failure [of k]) simp_all
  qed
qed




section \<open>Sample runs\<close>


section \<open>The validation step\<close>



section \<open>Full screen and the integration with Sway\<close>

lemma call_setter_frame:
  assumes "frame_setter f" and "call_setter f ev cfg a = (None, cfg', out)"
  shows "fullscreen cfg' = fullscreen cfg \<and> (sway_wm cfg' \<longrightarrow> sway_wm cfg)"
  using assms by (auto simp: call_setter_def frame_setter_def split: option.splits)

lemma switch_opt_no_getopt:
  "switch_opt ext opt d cfg = (r, cfg', out) \<Longrightarrow> Getopt_long x \<notin> set out"
  by (auto simp: switch_opt_def call_setter_def print_help_def split: if_splits option.splits)

lemma switch_opt_flags:
  assumes "frame_ext ext" and "switch_opt ext opt d cfg = (None, cfg', out)"
  shows "if opt = of_char CHR ''f'' then fullscreen cfg' \<and> \<not> sway_wm cfg'
         else fullscreen cfg' = fullscreen cfg \<and> (sway_wm cfg' \<longrightarrow> sway_wm cfg)"
proof -
  from assms(1) have f: "frame_setter (set_scale_config ext)" "frame_setter (set_background_config ext)"
    "frame_setter (set_geometry_config ext)" "frame_setter (set_appid_config ext)"
    by (simp_all add: frame_ext_def)
  from assms(2) show ?thesis
    unfolding switch_opt_def
    by (auto split: if_splits dest: call_setter_frame [OF f(1)] call_setter_frame [OF f(2)]
        call_setter_frame [OF f(3)] call_setter_frame [OF f(4)])
qed

lemma switch_opt_return_not_f:
  "switch_opt ext opt d cfg = (Some rc, cfg', out) \<Longrightarrow> opt \<noteq> of_char CHR ''f''"
  by (auto simp: switch_opt_def split: if_splits)

lemma switch_opt_return_cfg:
  "switch_opt ext opt d cfg = (Some rc, cfg', out) \<Longrightarrow> cfg' = cfg"
  by (auto simp: switch_opt_def call_setter_def split: if_splits option.splits)

lemma parse_loop_flags:
  "parse_loop ext pc d cfg = (r, cfg', d', out) \<Longrightarrow> frame_ext ext \<Longrightarrow>
    (if Getopt_long (of_char CHR ''f'') \<in> set out then fullscreen cfg' \<and> \<not> sway_wm cfg'
     else fullscreen cfg' = fullscreen cfg \<and> (sway_wm cfg' \<longrightarrow> sway_wm cfg))"
proof (induction ext pc d cfg arbitrary: r cfg' d' out rule: parse_loop.induct)
  case (1 ext pc d cfg)
  obtain opt d1 where g: "getopt_long pc short_opts options d = (opt, d1)"
    by (cases "getopt_long pc short_opts options d")
  show ?case
  proof (cases "opt = - 1")
    case True
    with "1.prems" g have "cfg' = cfg" "out = [Getopt_long (- 1)]"
      by (simp_all add: parse_loop.simps [of ext pc d cfg])
    then show ?thesis by simp
  next
    case False
    obtain r1 cfg1 out1 where s: "switch_opt ext opt d1 cfg = (r1, cfg1, out1)"
      by (cases "switch_opt ext opt d1 cfg")
    have ng: "Getopt_long (of_char CHR ''f'') \<notin> set out1"
      by (rule switch_opt_no_getopt [OF s])
    show ?thesis
    proof (cases r1)
      case (Some rc)
      with "1.prems" g s False have c: "cfg' = cfg1" and o: "out = Getopt_long opt # out1"
        by (simp_all add: parse_loop.simps [of ext pc d cfg])
      have "cfg1 = cfg" by (rule switch_opt_return_cfg [OF s [unfolded Some]])
      moreover have "opt \<noteq> of_char CHR ''f''"
        by (rule switch_opt_return_not_f [OF s [unfolded Some]])
      ultimately show ?thesis using c o ng by simp
    next
      case None
      obtain r2 cfg2 d2 out2 where p: "parse_loop ext pc d1 cfg1 = (r2, cfg2, d2, out2)"
        by (cases "parse_loop ext pc d1 cfg1") auto
      with "1.prems" g s False None have c: "cfg' = cfg2"
        and o: "out = Getopt_long opt # out1 @ out2"
        by (simp_all add: parse_loop.simps [of ext pc d cfg])
      note ih = "1.IH" [OF g [symmetric] False s [unfolded None, symmetric] refl refl p "1.prems"(2)]
      note sw = switch_opt_flags [OF "1.prems"(2) s [unfolded None]]
      show ?thesis
      proof (cases "opt = of_char CHR ''f''")
        case True
        with sw have "fullscreen cfg1 \<and> \<not> sway_wm cfg1" by simp
        with ih have "fullscreen cfg2 \<and> \<not> sway_wm cfg2" by (auto split: if_splits)
        with True c o show ?thesis by simp
      next
        case nf: False
        with sw have "fullscreen cfg1 = fullscreen cfg \<and> (sway_wm cfg1 \<longrightarrow> sway_wm cfg)" by simp
        with ih nf c o ng show ?thesis by (auto split: if_splits)
      qed
    qed
  qed
qed

lemma frame_sample: "frame_ext sample_ext"
  by (simp add: frame_ext_def frame_setter_def sample_ext_def)

lemma run_nosway_fullscreen_nosway:
  "parse_cmdline sample_ext False ''swayimg'' [''-n'', ''a.png'', ''--fullscreen'', ''--no-sway'']
     sample_config =
     (4, \<lparr>fullscreen = True, sway_wm = False, show_info = False\<rparr>,
      \<lparr>scanned = [''swayimg'', ''-n'', ''--fullscreen'', ''--no-sway''], nonopts = [], recent = [],
         cur = ''-n'', nextchar = [], todo = [''a.png''], optarg = None\<rparr>,
      [Getopt_long 110, Getopt_long 102, Getopt_long 110, Getopt_long (- 1), Check_config])"
  by code_simp

text \<open>
  C1. For collaborators that leave the two flags alone (\<open>frame_ext\<close>): when
  \<^verbatim>\<open>parse_cmdline\<close> returns an index to continue at and the full screen option was
  applied at any point of the scan (\<^verbatim>\<open>getopt_long\<close> returned \<^verbatim>\<open>'f'\<close>), the resulting
  configuration has \<^verbatim>\<open>fullscreen\<close> set and \<^verbatim>\<open>sway_wm\<close> cleared, whatever other options
  came before or after; when it was not applied, \<^verbatim>\<open>fullscreen\<close> is what it was before
  the scan, so \<^verbatim>\<open>--no-sway\<close> does not set it.
\<close>

theorem fullscreen_disables_sway:
  assumes "frame_ext ext"
    and "parse_cmdline ext pc prog args cfg = (index, cfg', d, out)"
    and "0 < index"
  shows "if Getopt_long (of_char CHR ''f'') \<in> set out then fullscreen cfg' \<and> \<not> sway_wm cfg'
         else fullscreen cfg' = fullscreen cfg"
  using assms(2)
proof (cases rule: parse_cmdline_cases)
  case (continue lo cfg1)
  from assms(1) have ck: "fullscreen (check_config ext cfg1) = fullscreen cfg1"
    "sway_wm (check_config ext cfg1) \<longrightarrow> sway_wm cfg1"
    by (simp_all add: frame_ext_def)
  from parse_loop_flags [OF continue(1) assms(1)] ck continue(3,4) show ?thesis
    by (auto split: if_splits)
next
  case exit
  with assms(3) show ?thesis by simp
next
  case (failure k)
  with assms(3) show ?thesis by simp
qed

theorem fullscreen_disables_sway_witness:
  "frame_ext sample_ext \<and>
   parse_cmdline sample_ext False ''swayimg'' [''-n'', ''a.png'', ''--fullscreen'', ''--no-sway'']
     sample_config =
     (4, \<lparr>fullscreen = True, sway_wm = False, show_info = False\<rparr>,
      \<lparr>scanned = [''swayimg'', ''-n'', ''--fullscreen'', ''--no-sway''], nonopts = [], recent = [],
         cur = ''-n'', nextchar = [], todo = [''a.png''], optarg = None\<rparr>,
      [Getopt_long 110, Getopt_long 102, Getopt_long 110, Getopt_long (- 1), Check_config]) \<and>
   fullscreen \<lparr>fullscreen = True, sway_wm = False, show_info = False\<rparr> \<and>
   \<not> sway_wm \<lparr>fullscreen = True, sway_wm = False, show_info = False\<rparr>"
  using fullscreen_disables_sway [OF frame_sample run_nosway_fullscreen_nosway]
    frame_sample run_nosway_fullscreen_nosway by simp

section \<open>Selecting the files\<close>

lemma select_files_residual:
  assumes "0 < index" and "nat index \<le> length argv"
  shows "select_files ext argv index =
     (if drop (nat index) argv = [] then
        enumerate_files ext [''.''] ''No image files found in the current directory''
      else if drop (nat index) argv = [''-''] then (None, None, [])
      else enumerate_files ext (drop (nat index) argv)
             ''Unable to compose file list from input args'')"
proof -
  let ?ps = "drop (nat index) argv"
  have n: "int (length argv) - index = int (length ?ps)"
    using assms by simp
  have e: "?ps = [] \<longleftrightarrow> int (length ?ps) = 0" by simp
  have one: "(int (length ?ps) = 1 \<and> argv ! nat index = ''-'') \<longleftrightarrow> ?ps = [''-'']"
  proof
    assume a: "int (length ?ps) = 1 \<and> argv ! nat index = ''-''"
    then have lt: "nat index < length argv" by (cases "nat index < length argv") simp_all
    from Cons_nth_drop_Suc [OF lt] have "?ps = argv ! nat index # drop (Suc (nat index)) argv"
      by simp
    with a show "?ps = [''-'']" by simp
  next
    assume a: "?ps = [''-'']"
    then have lt: "nat index < length argv" by (cases "nat index < length argv") simp_all
    from Cons_nth_drop_Suc [OF lt] a have "argv ! nat index = ''-''" by simp
    with a show "int (length ?ps) = 1 \<and> argv ! nat index = ''-''" by simp
  qed
  have t: "take (nat (int (length ?ps))) ?ps = ?ps" by simp
  show ?thesis
    unfolding select_files_def Let_def n
    using e one t by (simp del: length_drop of_nat_diff)
qed

lemma run_dash:
  "parse_cmdline sample_ext False ''swayimg'' [''-''] sample_config =
     (1, sample_config,
      \<lparr>scanned = [''swayimg''], nonopts = [], recent = [], cur = [],
         nextchar = [], todo = [''-''], optarg = None\<rparr>,
      [Getopt_long (- 1), Check_config])"
  by code_simp

lemma explicit_list_shape:
  assumes "sel =
     (if ps = [] then enumerate_files ext [''.''] m1
      else if ps = [''-''] then (None, None, [])
      else enumerate_files ext ps m2)"
  shows "(2 \<le> length ps \<longrightarrow>
           (\<exists>rc log. sel =
              (rc, init_file_list ext ps True,
               Init_file_list ps True (init_file_list ext ps True \<noteq> None) # log))) \<and>
         (sel = (None, None, []) \<longleftrightarrow> ps = [''-''])"
proof (cases "ps = []")
  case True
  with assms show ?thesis
    by (simp add: enumerate_files_def recursive_def split: option.splits)
next
  case ne: False
  show ?thesis
  proof (cases "ps = [''-'']")
    case True
    with assms show ?thesis by simp
  next
    case False
    with ne assms show ?thesis
      by (simp add: enumerate_files_def recursive_def split: option.splits)
  qed
qed

lemma run_dash_file:
  "parse_cmdline sample_ext False ''swayimg'' [''-'', ''a.png''] sample_config =
     (1, sample_config,
      \<lparr>scanned = [''swayimg''], nonopts = [], recent = [], cur = [],
         nextchar = [], todo = [''-'', ''a.png''], optarg = None\<rparr>,
      [Getopt_long (- 1), Check_config])"
  by code_simp

lemma sample_init_file_list:
  "init_file_list sample_ext paths r = (if paths = [] then None else Some paths)"
  by (simp add: sample_ext_def)

text \<open>
  C2. After \<^verbatim>\<open>parse_cmdline\<close> returned an index to continue at, the arguments from this
  index on (in the argument vector as the scan left it) choose exactly one of three
  cases. None: \<^verbatim>\<open>init_file_list\<close> is called for the current directory, recursively,
  and when it returns no list the message goes to the standard error and the exit code
  is \<^verbatim>\<open>EXIT_FAILURE\<close>. The single argument \<^verbatim>\<open>-\<close>: the file list is null (the standard
  input) and \<^verbatim>\<open>init_file_list\<close> is not called. Any other list: \<^verbatim>\<open>init_file_list\<close> is
  called with exactly these arguments, recursively, and fails in the same way when it
  returns no list.
\<close>

theorem file_set_selection:
  assumes "parse_cmdline ext pc prog args cfg = (index, cfg', d, out)" and "0 < index"
  shows "(drop (nat index) (argv_of d) = [] \<longrightarrow>
           select_files ext (argv_of d) index =
             (case init_file_list ext [''.''] True of
                None \<Rightarrow>
                  (Some EXIT_FAILURE, None,
                   [Init_file_list [''.''] True False,
                    Stderr (''No image files found in the current directory'' @ newline)])
              | Some files \<Rightarrow> (None, Some files, [Init_file_list [''.''] True True]))) \<and>
         (drop (nat index) (argv_of d) = [''-''] \<longrightarrow>
           select_files ext (argv_of d) index = (None, None, [])) \<and>
         (drop (nat index) (argv_of d) \<noteq> [] \<and> drop (nat index) (argv_of d) \<noteq> [''-''] \<longrightarrow>
           select_files ext (argv_of d) index =
             (case init_file_list ext (drop (nat index) (argv_of d)) True of
                None \<Rightarrow>
                  (Some EXIT_FAILURE, None,
                   [Init_file_list (drop (nat index) (argv_of d)) True False,
                    Stderr (''Unable to compose file list from input args'' @ newline)])
              | Some files \<Rightarrow>
                  (None, Some files,
                   [Init_file_list (drop (nat index) (argv_of d)) True True])))"
proof -
  from assms(1) have "nat index \<le> length (argv_of d)"
    by (cases rule: parse_cmdline_cases) (use assms(2) in simp_all)
  from select_files_residual [OF assms(2) this, of ext] show ?thesis
    by (simp add: enumerate_files_def recursive_def split: option.splits)
qed

theorem file_set_selection_witness:
  "parse_cmdline sample_ext False ''swayimg'' [''-''] sample_config =
     (1, sample_config,
      \<lparr>scanned = [''swayimg''], nonopts = [], recent = [], cur = [],
         nextchar = [], todo = [''-''], optarg = None\<rparr>,
      [Getopt_long (- 1), Check_config]) \<and>
   select_files sample_ext [''swayimg'', ''-''] 1 = (None, None, [])"
  using file_set_selection [OF run_dash] run_dash by (simp add: argv_of_def)

text \<open>
  C10. When two or more arguments are left, \<^verbatim>\<open>init_file_list\<close> is called with all of
  them, an argument \<^verbatim>\<open>-\<close> among them included, and the file list is what this call
  returns; the null file list without a call of \<^verbatim>\<open>init_file_list\<close> is chosen exactly
  when \<^verbatim>\<open>-\<close> is the only argument left.
\<close>

theorem dash_among_several:
  assumes "parse_cmdline ext pc prog args cfg = (index, cfg', d, out)" and "0 < index"
  shows "(2 \<le> length (drop (nat index) (argv_of d)) \<longrightarrow>
           (\<exists>rc log. select_files ext (argv_of d) index =
              (rc, init_file_list ext (drop (nat index) (argv_of d)) True,
               Init_file_list (drop (nat index) (argv_of d)) True
                 (init_file_list ext (drop (nat index) (argv_of d)) True \<noteq> None) # log))) \<and>
         (select_files ext (argv_of d) index = (None, None, []) \<longleftrightarrow>
            drop (nat index) (argv_of d) = [''-''])"
proof -
  from assms(1) have "nat index \<le> length (argv_of d)"
    by (cases rule: parse_cmdline_cases) (use assms(2) in simp_all)
  from select_files_residual [OF assms(2) this, of ext] show ?thesis
    by (rule explicit_list_shape)
qed

theorem dash_among_several_witness:
  "parse_cmdline sample_ext False ''swayimg'' [''-'', ''a.png''] sample_config =
     (1, sample_config,
      \<lparr>scanned = [''swayimg''], nonopts = [], recent = [], cur = [],
         nextchar = [], todo = [''-'', ''a.png''], optarg = None\<rparr>,
      [Getopt_long (- 1), Check_config]) \<and>
   (\<exists>rc log. select_files sample_ext [''swayimg'', ''-'', ''a.png''] 1 =
     (rc, Some [''-'', ''a.png''], Init_file_list [''-'', ''a.png''] True True # log))"
  using dash_among_several [OF run_dash_file] run_dash_file
  by (simp add: argv_of_def sample_init_file_list)

section \<open>The exit code\<close>

lemma select_files_events:
  assumes "select_files ext argv index = (r, files, ev)"
  shows "(r = Some EXIT_FAILURE \<and> (\<exists>paths msg. ev = [Init_file_list paths True False, Stderr msg])) \<or>
         (r = None \<and> (ev = [] \<or> (\<exists>paths. ev = [Init_file_list paths True True])))"
  using assms
  by (auto simp: select_files_def enumerate_files_def recursive_def Let_def
      split: if_splits option.splits)

lemma main_cases:
  assumes "main ext pc prog args = (rc, out)"
  obtains
    (no_config) "init_config ext = None" "rc = 1" "out = []"
  | (early) cfg cfg' d where "init_config ext = Some cfg"
      "parse_cmdline ext pc prog args cfg = (0, cfg', d, out)"
      "scan_shape Exit_success (Some 0) out" "rc = 0"
  | (failed) cfg cfg' d k where "init_config ext = Some cfg"
      "parse_cmdline ext pc prog args cfg = (- 1, cfg', d, out)"
      "k = Rejected_value \<or> k = Invalid_argument" "scan_shape k (Some (- 1)) out" "rc = 1"
  | (no_files) lo paths msg where "scan_shape Continue None lo"
      "out = lo @ [Check_config, Init_file_list paths True False, Stderr msg]" "rc = 1"
  | (viewer) lo sel files ok where "scan_shape Continue None lo"
      "out = lo @ Check_config # sel @ [Run_viewer files ok]"
      "sel = [] \<or> (\<exists>paths. sel = [Init_file_list paths True True])"
      "rc = (if ok then 0 else 1)"
proof (cases "init_config ext")
  case None
  with assms have "rc = 1" "out = []" by (simp_all add: main_def EXIT_FAILURE_def)
  with None show thesis by (rule no_config)
next
  case (Some cfg)
  obtain index cfg' d lo where p: "parse_cmdline ext pc prog args cfg = (index, cfg', d, lo)"
    by (cases "parse_cmdline ext pc prog args cfg") auto
  from p show thesis
  proof (cases rule: parse_cmdline_cases)
    case exit
    with assms Some p have "rc = 0" "out = lo"
      by (simp_all add: main_def EXIT_SUCCESS_def)
    with Some p exit show ?thesis by (intro early [of cfg cfg' d]) simp_all
  next
    case (failure k)
    with assms Some p have "rc = 1" "out = lo"
      by (simp_all add: main_def EXIT_FAILURE_def)
    with Some p failure show ?thesis by (intro failed [of cfg cfg' d k]) simp_all
  next
    case (continue lo1 cfg1)
    obtain r files ev where s: "select_files ext (argv_of d) index = (r, files, ev)"
      by (cases "select_files ext (argv_of d) index") auto
    from select_files_events [OF s] show ?thesis
    proof (elim disjE conjE exE)
      fix paths msg
      assume "r = Some EXIT_FAILURE" "ev = [Init_file_list paths True False, Stderr msg]"
      with assms Some p s continue have "rc = 1"
        "out = lo1 @ [Check_config, Init_file_list paths True False, Stderr msg]"
        by (simp_all add: main_def EXIT_FAILURE_def)
      with continue(2) show ?thesis by (intro no_files [of lo1 paths msg]) simp_all
    next
      assume "r = None" "ev = []"
      with assms Some p s continue have
        "rc = (if run_viewer ext cfg' files then 0 else 1)"
        "out = lo1 @ Check_config # [] @ [Run_viewer files (run_viewer ext cfg' files)]"
        by (auto simp: main_def Let_def EXIT_FAILURE_def EXIT_SUCCESS_def)
      with continue(2) show ?thesis
        by (intro viewer [of lo1 "[]" files "run_viewer ext cfg' files"]) simp_all
    next
      fix paths
      assume "r = None" "ev = [Init_file_list paths True True]"
      with assms Some p s continue have
        "rc = (if run_viewer ext cfg' files then 0 else 1)"
        "out = lo1 @ Check_config # [Init_file_list paths True True] @
           [Run_viewer files (run_viewer ext cfg' files)]"
        by (auto simp: main_def Let_def EXIT_FAILURE_def EXIT_SUCCESS_def)
      with continue(2) show ?thesis
        by (intro viewer [of lo1 "[Init_file_list paths True True]" files
              "run_viewer ext cfg' files"]) simp_all
    qed
  qed
qed


lemma quiet_D: "list_all quiet pre \<Longrightarrow> e \<in> set pre \<Longrightarrow> quiet e"
  by (simp add: list_all_iff)

lemma stdout_D: "list_all is_stdout pre \<Longrightarrow> e \<in> set pre \<Longrightarrow> is_stdout e"
  by (simp add: list_all_iff)

lemma early_not_continues: "early_exit x \<Longrightarrow> \<not> continues x"
  by (auto simp: early_exit_def continues_def)

lemma early_not_end: "early_exit x \<Longrightarrow> x \<noteq> - 1"
  by (auto simp: early_exit_def)

lemma continues_not_end: "continues x \<Longrightarrow> x \<noteq> - 1"
  by (auto simp: continues_def)

lemma rejected_not_quiet: "rejected e \<Longrightarrow> \<not> quiet e"
  by (cases e) simp_all

lemma rejected_not_stdout: "rejected e \<Longrightarrow> \<not> is_stdout e"
  by (cases e) simp_all

lemma quiet_getopt: "list_all quiet pre \<Longrightarrow> Getopt_long x \<in> set pre \<Longrightarrow> continues x"
  using quiet_D [of pre "Getopt_long x"] by simp

lemma quiet_no_init: "list_all quiet pre \<Longrightarrow> Init_file_list paths r ok \<notin> set pre"
  using quiet_D [of pre "Init_file_list paths r ok"] by auto

lemma quiet_no_viewer: "list_all quiet pre \<Longrightarrow> Run_viewer files ok \<notin> set pre"
  using quiet_D [of pre "Run_viewer files ok"] by auto

lemma quiet_not_rejected: "list_all quiet pre \<Longrightarrow> e \<in> set pre \<Longrightarrow> \<not> rejected e"
  using quiet_D [of pre e] rejected_not_quiet [of e] by auto

lemma stdout_no_getopt: "list_all is_stdout pre \<Longrightarrow> Getopt_long x \<notin> set pre"
  using stdout_D [of pre "Getopt_long x"] by auto

lemma stdout_no_init: "list_all is_stdout pre \<Longrightarrow> Init_file_list paths r ok \<notin> set pre"
  using stdout_D [of pre "Init_file_list paths r ok"] by auto

lemma stdout_no_viewer: "list_all is_stdout pre \<Longrightarrow> Run_viewer files ok \<notin> set pre"
  using stdout_D [of pre "Run_viewer files ok"] by auto

lemma stdout_not_rejected: "list_all is_stdout pre \<Longrightarrow> e \<in> set pre \<Longrightarrow> \<not> rejected e"
  using stdout_D [of pre e] rejected_not_stdout [of e] by auto

lemma quiet_has:
  assumes "list_all quiet pre"
  shows "\<not> has_early pre" "\<not> has_invalid pre" "\<not> has_rejected pre" "\<not> has_no_files pre"
    "\<not> has_viewer ok pre"
  using quiet_getopt [OF assms] quiet_no_init [OF assms] quiet_no_viewer [OF assms]
    quiet_not_rejected [OF assms]
  by (auto simp: has_early_def has_invalid_def has_rejected_def has_no_files_def has_viewer_def
      dest: early_not_continues)

lemma has_append:
  "has_early (xs @ ys) = (has_early xs \<or> has_early ys)"
  "has_invalid (xs @ ys) = (has_invalid xs \<or> has_invalid ys)"
  "has_rejected (xs @ ys) = (has_rejected xs \<or> has_rejected ys)"
  "has_no_files (xs @ ys) = (has_no_files xs \<or> has_no_files ys)"
  "has_viewer ok (xs @ ys) = (has_viewer ok xs \<or> has_viewer ok ys)"
  by (auto simp: has_early_def has_invalid_def has_rejected_def has_no_files_def has_viewer_def)

lemma has_Cons:
  "has_early (e # ys) = ((\<exists>x. e = Getopt_long x \<and> early_exit x) \<or> has_early ys)"
  "has_invalid (e # ys) =
     ((\<exists>x. e = Getopt_long x \<and> \<not> continues x \<and> \<not> early_exit x \<and> x \<noteq> - 1) \<or> has_invalid ys)"
  "has_rejected (e # ys) = (rejected e \<or> has_rejected ys)"
  "has_no_files (e # ys) = ((\<exists>paths r. e = Init_file_list paths r False) \<or> has_no_files ys)"
  "has_viewer ok (e # ys) = ((\<exists>files. e = Run_viewer files ok) \<or> has_viewer ok ys)"
  by (auto simp: has_early_def has_invalid_def has_rejected_def has_no_files_def has_viewer_def)

lemma has_Nil:
  "\<not> has_early []" "\<not> has_invalid []" "\<not> has_rejected []" "\<not> has_no_files []" "\<not> has_viewer ok []"
  by (simp_all add: has_early_def has_invalid_def has_rejected_def has_no_files_def has_viewer_def)

lemma stdout_has:
  assumes "list_all is_stdout pre"
  shows "\<not> has_early pre" "\<not> has_invalid pre" "\<not> has_rejected pre" "\<not> has_no_files pre"
    "\<not> has_viewer ok pre"
  using stdout_no_getopt [OF assms] stdout_no_init [OF assms] stdout_no_viewer [OF assms]
    stdout_not_rejected [OF assms]
  by (auto simp: has_early_def has_invalid_def has_rejected_def has_no_files_def has_viewer_def)

lemma shape_has:
  assumes "scan_shape k r out"
  shows "has_early out = (k = Exit_success)" "has_invalid out = (k = Invalid_argument)"
    "has_rejected out = (k = Rejected_value)" "\<not> has_no_files out" "\<not> has_viewer ok out"
  using assms
  by (cases k; auto simp: scan_shape_def has_append has_Cons has_Nil quiet_has stdout_has
      dest: early_not_continues early_not_end rejected_not_quiet)+

lemma run_main_help:
  "main sample_ext False ''swayimg'' [''-n'', ''a.png'', ''--help'', ''-x''] =
     (0, Getopt_long 110 # Getopt_long 104 # print_help sample_ext)"
  by code_simp

lemma run_cmdline_help:
  "parse_cmdline sample_ext False ''swayimg'' [''-n'', ''a.png'', ''--help'', ''-x''] sample_config =
     (0, \<lparr>fullscreen = False, sway_wm = False, show_info = False\<rparr>,
      \<lparr>scanned = [''swayimg'', ''-n''], nonopts = [''a.png''], recent = [''--help''],
         cur = ''-n'', nextchar = [], todo = [''-x''], optarg = None\<rparr>,
      Getopt_long 110 # Getopt_long 104 # print_help sample_ext)"
  by code_simp

lemma has_early_help: "has_early (Getopt_long 110 # Getopt_long 104 # print_help sample_ext)"
  by (simp add: has_Cons early_exit_def)

lemma run_main_file:
  "main sample_ext False ''swayimg'' [''a.png'', ''-f''] =
     (0, [Getopt_long 102, Getopt_long (- 1), Check_config,
          Init_file_list [''a.png''] True True, Run_viewer (Some [''a.png'']) True])"
  by code_simp

text \<open>
  C4. When the events of a run of \<^verbatim>\<open>main\<close> hold a call of \<^verbatim>\<open>getopt_long\<close> that
  returned the help or the version option, \<^verbatim>\<open>parse_cmdline\<close> returned \<open>0\<close> and the
  exit code is \<open>0\<close>; before that call there are only options that continue and
  setters that accepted, after it only the text written to the standard output: no
  further call of \<^verbatim>\<open>getopt_long\<close>, no call of \<^verbatim>\<open>init_file_list\<close> and no call of
  \<^verbatim>\<open>run_viewer\<close>.
\<close>

theorem help_version_exit:
  assumes "main ext pc prog args = (rc, out)" and "has_early out"
  shows "rc = 0 \<and>
         (\<exists>cfg cfg' d. init_config ext = Some cfg \<and>
            parse_cmdline ext pc prog args cfg = (0, cfg', d, out)) \<and>
         (\<exists>pre x texts. out = pre @ Getopt_long x # texts \<and> early_exit x \<and>
            list_all quiet pre \<and> list_all is_stdout texts) \<and>
         (\<forall>paths r ok. Init_file_list paths r ok \<notin> set out) \<and>
         (\<forall>files ok. Run_viewer files ok \<notin> set out)"
  using assms(1)
proof (cases rule: main_cases)
  case no_config
  with assms(2) show ?thesis by (simp add: has_Nil)
next
  case (early cfg cfg' d)
  from early(3) obtain pre x texts where sh: "list_all quiet pre" "early_exit x"
    "list_all is_stdout texts" "out = pre @ Getopt_long x # texts"
    by (auto simp: scan_shape_def)
  have "\<forall>paths r ok. Init_file_list paths r ok \<notin> set out"
    using sh quiet_no_init [OF sh(1)] stdout_no_init [OF sh(3)] by simp
  moreover have "\<forall>files ok. Run_viewer files ok \<notin> set out"
    using sh quiet_no_viewer [OF sh(1)] stdout_no_viewer [OF sh(3)] by simp
  moreover have "\<exists>pre x texts. out = pre @ Getopt_long x # texts \<and> early_exit x \<and>
            list_all quiet pre \<and> list_all is_stdout texts"
    using sh by blast
  moreover have "\<exists>cfg cfg' d. init_config ext = Some cfg \<and>
            parse_cmdline ext pc prog args cfg = (0, cfg', d, out)"
    using early(1,2) by blast
  ultimately show ?thesis using early(4) by blast
next
  case (failed cfg cfg' d k)
  from shape_has(1) [OF failed(4)] failed(3) assms(2) show ?thesis by auto
next
  case (no_files lo paths msg)
  from shape_has(1) [OF no_files(1)] no_files(2) assms(2) show ?thesis
    by (simp add: has_append has_Cons has_Nil)
next
  case (viewer lo sel files ok)
  from shape_has(1) [OF viewer(1)] viewer(2,3) assms(2) show ?thesis
    by (auto simp: has_append has_Cons has_Nil)
qed

theorem help_version_exit_witness:
  "main sample_ext False ''swayimg'' [''-n'', ''a.png'', ''--help'', ''-x''] =
     (0, Getopt_long 110 # Getopt_long 104 # print_help sample_ext) \<and>
   has_early (Getopt_long 110 # Getopt_long 104 # print_help sample_ext :: string list event list) \<and>
   parse_cmdline sample_ext False ''swayimg'' [''-n'', ''a.png'', ''--help'', ''-x''] sample_config =
     (0, \<lparr>fullscreen = False, sway_wm = False, show_info = False\<rparr>,
      \<lparr>scanned = [''swayimg'', ''-n''], nonopts = [''a.png''], recent = [''--help''],
         cur = ''-n'', nextchar = [], todo = [''-x''], optarg = None\<rparr>,
      Getopt_long 110 # Getopt_long 104 # print_help sample_ext) \<and>
   (\<forall>paths r ok. Init_file_list paths r ok \<notin>
      set (Getopt_long 110 # Getopt_long 104 # print_help sample_ext :: string list event list))"
  using help_version_exit [OF run_main_help has_early_help] run_main_help has_early_help
    run_cmdline_help
  by blast

lemma scan_shape_prepend:
  assumes "list_all quiet pre" and "scan_shape k r out"
  shows "scan_shape k r (pre @ out)"
proof (cases k)
  case Continue
  with assms(2) obtain p where "r = None" "list_all quiet p" "out = p @ [Getopt_long (- 1)]"
    by (auto simp: scan_shape_def)
  with assms(1) have "r = None \<and> list_all quiet (pre @ p) \<and> pre @ out = (pre @ p) @ [Getopt_long (- 1)]"
    by simp
  then show ?thesis unfolding scan_shape_def Continue by (simp only: scan_end.case) blast
next
  case Exit_success
  with assms(2) obtain p x texts where "r = Some 0" "list_all quiet p" "early_exit x"
    "list_all is_stdout texts" "out = p @ Getopt_long x # texts"
    by (auto simp: scan_shape_def)
  with assms(1) have "r = Some 0 \<and> list_all quiet (pre @ p) \<and> early_exit x \<and>
      list_all is_stdout texts \<and> pre @ out = (pre @ p) @ Getopt_long x # texts"
    by simp
  then show ?thesis unfolding scan_shape_def Exit_success by (simp only: scan_end.case) blast
next
  case Rejected_value
  with assms(2) obtain p x e where "r = Some (- 1)" "list_all quiet p" "continues x"
    "rejected e" "out = p @ [Getopt_long x, e]"
    by (auto simp: scan_shape_def)
  with assms(1) have "r = Some (- 1) \<and> list_all quiet (pre @ p) \<and> continues x \<and>
      rejected e \<and> pre @ out = (pre @ p) @ [Getopt_long x, e]"
    by simp
  then show ?thesis unfolding scan_shape_def Rejected_value by (simp only: scan_end.case) blast
next
  case Invalid_argument
  with assms(2) obtain p x msg where "r = Some (- 1)" "list_all quiet p" "\<not> continues x"
    "\<not> early_exit x" "x \<noteq> - 1" "out = p @ [Getopt_long x, Stderr msg]"
    by (auto simp: scan_shape_def)
  with assms(1) have "r = Some (- 1) \<and> list_all quiet (pre @ p) \<and> \<not> continues x \<and>
      \<not> early_exit x \<and> x \<noteq> - 1 \<and> pre @ out = (pre @ p) @ [Getopt_long x, Stderr msg]"
    by simp
  then show ?thesis unfolding scan_shape_def Invalid_argument by (simp only: scan_end.case) blast
qed

lemma switch_opt_apply_continue:
  assumes "switch_opt ext opt d cfg = (None, cfg1, out)"
  shows "apply_options ext cfg ((opt, optarg d) # rest) = apply_options ext cfg1 rest"
  using assms
  by (auto simp: switch_opt_def call_setter_def split: if_splits option.splits)

lemma switch_opt_apply_stop:
  assumes "switch_opt ext opt d cfg = (Some rc, cfg1, out)" and "opt \<noteq> - 1"
  shows "\<exists>k. apply_options ext cfg ((opt, optarg d) # rest) = (k, cfg) \<and>
             scan_shape k (Some rc) (Getopt_long opt # out)"
proof -
  from switch_opt_return [OF assms(1)]
  consider "early_exit opt" "rc = 0" "list_all is_stdout out"
    | e where "continues opt" "rc = - 1" "rejected e" "out = [e]"
    | msg where "\<not> continues opt" "\<not> early_exit opt" "rc = - 1" "out = [Stderr msg]"
    by blast
  then show ?thesis
  proof cases
    case 1
    then have "apply_options ext cfg ((opt, optarg d) # rest) = (Exit_success, cfg)"
      by (auto simp: early_exit_def)
    moreover have "scan_shape Exit_success (Some rc) (Getopt_long opt # out)"
      unfolding scan_shape_def using 1 by (auto intro!: exI [of _ "[]"])
    ultimately show ?thesis by blast
  next
    case 2
    from assms(1) 2 have "apply_options ext cfg ((opt, optarg d) # rest) = (Rejected_value, cfg)"
      by (auto simp: switch_opt_def call_setter_def continues_def split: if_splits option.splits)
    moreover have "scan_shape Rejected_value (Some rc) (Getopt_long opt # out)"
      unfolding scan_shape_def using 2 by (auto intro!: exI [of _ "[]"])
    ultimately show ?thesis by blast
  next
    case 3
    then have "apply_options ext cfg ((opt, optarg d) # rest) = (Invalid_argument, cfg)"
      by (auto simp: early_exit_def continues_def)
    moreover have "scan_shape Invalid_argument (Some rc) (Getopt_long opt # out)"
      unfolding scan_shape_def using 3 assms(2) by (auto intro!: exI [of _ "[]"])
    ultimately show ?thesis by blast
  qed
qed

lemma parse_loop_spec:
  "parse_loop ext pc d cfg = (r, cfg', d', out) \<Longrightarrow> getopt_results pc d = (rs, dend) \<Longrightarrow>
   apply_options ext cfg rs = (k, c) \<Longrightarrow>
   scan_shape k r out \<and> cfg' = c \<and> (k = Continue \<longrightarrow> d' = dend)"
proof (induction ext pc d cfg arbitrary: r cfg' d' out rs dend rule: parse_loop.induct)
  case (1 ext pc d cfg)
  obtain opt d1 where g: "getopt_long pc short_opts options d = (opt, d1)"
    by (cases "getopt_long pc short_opts options d")
  show ?case
  proof (cases "opt = - 1")
    case True
    with "1.prems"(1) g have "r = None" "out = [Getopt_long (- 1)]" "cfg' = cfg" "d' = d1"
      by (simp_all add: parse_loop.simps [of ext pc d cfg])
    moreover from "1.prems"(2) g True have "rs = []" "dend = d1"
      by (simp_all add: getopt_results.simps [of pc d])
    ultimately show ?thesis using "1.prems"(3) by (auto simp: scan_shape_def)
  next
    case False
    obtain rs1 dend1 where gr: "getopt_results pc d1 = (rs1, dend1)"
      by (cases "getopt_results pc d1")
    with "1.prems"(2) g False have rs: "rs = (opt, optarg d1) # rs1" "dend = dend1"
      by (simp_all add: getopt_results.simps [of pc d])
    obtain r1 cfg1 out1 where s: "switch_opt ext opt d1 cfg = (r1, cfg1, out1)"
      by (cases "switch_opt ext opt d1 cfg")
    show ?thesis
    proof (cases r1)
      case (Some rc)
      with "1.prems"(1) g s False have e: "r = Some rc" "cfg' = cfg1" "out = Getopt_long opt # out1"
        by (simp_all add: parse_loop.simps [of ext pc d cfg])
      from switch_opt_apply_stop [OF s [unfolded Some] False, of rs1] obtain k' where
        k': "apply_options ext cfg ((opt, optarg d1) # rs1) = (k', cfg)"
          "scan_shape k' (Some rc) (Getopt_long opt # out1)" by blast
      have c1: "cfg1 = cfg" by (rule switch_opt_return_cfg [OF s [unfolded Some]])
      from k'(1) "1.prems"(3) rs have "k = k'" "c = cfg" by simp_all
      moreover from k'(2) have "k' \<noteq> Continue" by (auto simp: scan_shape_def)
      ultimately show ?thesis using k'(2) e c1 by simp
    next
      case None
      obtain r2 cfg2 d2 out2 where p: "parse_loop ext pc d1 cfg1 = (r2, cfg2, d2, out2)"
        by (cases "parse_loop ext pc d1 cfg1") auto
      with "1.prems"(1) g s False None have e: "r = r2" "cfg' = cfg2" "d' = d2"
        "out = (Getopt_long opt # out1) @ out2"
        by (simp_all add: parse_loop.simps [of ext pc d cfg])
      from switch_opt_continue [OF s [unfolded None]]
      have q: "list_all quiet (Getopt_long opt # out1)" by simp
      from switch_opt_apply_continue [OF s [unfolded None], of rs1] "1.prems"(3) rs
      have a: "apply_options ext cfg1 rs1 = (k, c)" by simp
      from "1.IH" [OF g [symmetric] False s [unfolded None, symmetric] refl refl p gr a]
      have ih: "scan_shape k r2 out2" "cfg2 = c" "k = Continue \<longrightarrow> d2 = dend1" by simp_all
      from scan_shape_prepend [OF q ih(1)] ih(2,3) e rs(2) show ?thesis by simp
    qed
  qed
qed

lemma main_exit_code_spec:
  assumes "main ext pc prog args = (rc, out)"
  shows "rc = exit_code_spec ext pc prog args"
proof (cases "init_config ext")
  case None
  with assms show ?thesis by (simp add: main_def exit_code_spec_def EXIT_FAILURE_def)
next
  case (Some cfg)
  obtain index cfg' d lo where p: "parse_cmdline ext pc prog args cfg = (index, cfg', d, lo)"
    by (cases "parse_cmdline ext pc prog args cfg") auto
  obtain rs dend where gr: "getopt_results pc (getopt_start prog args) = (rs, dend)"
    by (cases "getopt_results pc (getopt_start prog args)")
  obtain k c where ap: "apply_options ext cfg rs = (k, c)"
    by (cases "apply_options ext cfg rs")
  have spec: "exit_code_spec ext pc prog args =
      (case k of
         Exit_success \<Rightarrow> 0
       | Rejected_value \<Rightarrow> 1
       | Invalid_argument \<Rightarrow> 1
       | Continue \<Rightarrow>
           (let ps = drop (optind_of dend) (argv_of dend)
            in if ps = [''-''] then
                 (if run_viewer ext (check_config ext c) None then 0 else 1)
               else
                 (case init_file_list ext (if ps = [] then [''.''] else ps) True of
                    None \<Rightarrow> 1
                  | Some files \<Rightarrow>
                      if run_viewer ext (check_config ext c) (Some files) then 0 else 1)))"
    by (simp add: exit_code_spec_def Some gr ap)
  from p show ?thesis
  proof (cases rule: parse_cmdline_cases)
    case exit
    from parse_loop_spec [OF exit(3) gr ap] have "scan_shape k (Some 0) lo" by simp
    then have "k = Exit_success" by (cases k) (simp_all add: scan_shape_def)
    moreover from assms Some p exit(2) have "rc = 0" by (simp add: main_def EXIT_SUCCESS_def)
    ultimately show ?thesis by (simp add: spec)
  next
    case (failure k0)
    from parse_loop_spec [OF failure(4) gr ap] have "scan_shape k (Some (- 1)) lo" by simp
    then have "k = Rejected_value \<or> k = Invalid_argument"
      by (cases k) (simp_all add: scan_shape_def)
    moreover from assms Some p failure(3) have "rc = 1" by (simp add: main_def EXIT_FAILURE_def)
    ultimately show ?thesis by (auto simp: spec)
  next
    case (continue lo1 cfg1)
    from parse_loop_spec [OF continue(1) gr ap]
    have sh: "scan_shape k None lo1" and c: "cfg1 = c" and de: "k = Continue \<longrightarrow> d = dend"
      by simp_all
    from sh have k: "k = Continue" by (cases k) (simp_all add: scan_shape_def)
    with de have d: "dend = d" by simp
    have ni: "nat index = optind_of d" using continue(5) by simp
    note sel = select_files_residual [OF continue(6,7), of ext, unfolded ni]
    show ?thesis
    proof (cases "drop (optind_of d) (argv_of d) = [''-'']")
      case True
      with sel have "select_files ext (argv_of d) index = (None, None, [])" by simp
      with assms Some p continue(4,6) c
      have "rc = (if run_viewer ext (check_config ext c) None then 0 else 1)"
        by (auto simp: main_def Let_def EXIT_SUCCESS_def EXIT_FAILURE_def)
      with True show ?thesis by (simp add: spec k d Let_def)
    next
      case False
      let ?paths = "if drop (optind_of d) (argv_of d) = [] then [''.'']
                    else drop (optind_of d) (argv_of d)"
      from sel False have s: "\<exists>m. select_files ext (argv_of d) index = enumerate_files ext ?paths m"
        by auto
      then obtain m where s: "select_files ext (argv_of d) index = enumerate_files ext ?paths m" ..
      show ?thesis
      proof (cases "init_file_list ext ?paths True")
        case None
        with s have "select_files ext (argv_of d) index =
            (Some EXIT_FAILURE, None, [Init_file_list ?paths recursive False, Stderr (m @ newline)])"
          by (simp add: enumerate_files_def recursive_def)
        with assms Some p continue(6) have "rc = 1"
          by (simp add: main_def EXIT_FAILURE_def)
        with None False show ?thesis by (simp add: spec k d Let_def)
      next
        case (Some files)
        with s have "select_files ext (argv_of d) index =
            (None, Some files, [Init_file_list ?paths recursive True])"
          by (simp add: enumerate_files_def recursive_def)
        with assms \<open>init_config ext = Some cfg\<close> p continue(4,6) c
        have "rc = (if run_viewer ext (check_config ext c) (Some files) then 0 else 1)"
          by (auto simp: main_def Let_def EXIT_SUCCESS_def EXIT_FAILURE_def)
        with Some False show ?thesis by (simp add: spec k d Let_def)
      qed
    qed
  qed
qed

lemma run_main_rejected:
  "main sample_ext False ''swayimg'' [''-s'', ''bogus'', ''a.png''] =
     (1, [Getopt_long 115, Set_scale_config (Some ''bogus'') False])"
  by code_simp

text \<open>
  C5. The exit code of \<^verbatim>\<open>main\<close> is \<open>0\<close> or \<open>1\<close>. It is \<open>0\<close> exactly when the scan
  met the help or the version option, or \<^verbatim>\<open>run_viewer\<close> was called and returned
  \<^verbatim>\<open>true\<close>. It is \<open>1\<close> in particular when \<^verbatim>\<open>getopt_long\<close> returned a value that is no
  option of the program, when a setter rejected a value, when \<^verbatim>\<open>init_file_list\<close>
  returned no list, and when \<^verbatim>\<open>run_viewer\<close> returned \<^verbatim>\<open>false\<close>. And it is the exit
  code of the specification, which is stated on what \<^verbatim>\<open>init_config\<close>, the setters,
  \<^verbatim>\<open>check_config\<close>, \<^verbatim>\<open>init_file_list\<close> and \<^verbatim>\<open>run_viewer\<close> return for the options and
  the arguments of the command line, not on the events.
\<close>

theorem exit_code:
  assumes "main ext pc prog args = (rc, out)"
  shows "(rc = 0 \<or> rc = 1) \<and>
         (rc = 0 \<longleftrightarrow> has_early out \<or> has_viewer True out) \<and>
         (has_invalid out \<longrightarrow> rc = 1) \<and>
         (has_rejected out \<longrightarrow> rc = 1) \<and>
         (has_no_files out \<longrightarrow> rc = 1) \<and>
         (has_viewer False out \<longrightarrow> rc = 1) \<and>
         rc = exit_code_spec ext pc prog args"
proof -
  have "(rc = 0 \<or> rc = 1) \<and>
         (rc = 0 \<longleftrightarrow> has_early out \<or> has_viewer True out) \<and>
         (has_invalid out \<longrightarrow> rc = 1) \<and>
         (has_rejected out \<longrightarrow> rc = 1) \<and>
         (has_no_files out \<longrightarrow> rc = 1) \<and>
         (has_viewer False out \<longrightarrow> rc = 1)"
    using assms
  proof (cases rule: main_cases)
    case no_config
    then show ?thesis by (simp add: has_Nil)
  next
    case (early cfg cfg' d)
    from shape_has [OF early(3)] early(4) show ?thesis by simp
  next
    case (failed cfg cfg' d k)
    from shape_has [OF failed(4)] failed(3,5) show ?thesis by auto
  next
    case (no_files lo paths msg)
    from shape_has [OF no_files(1)] no_files(2,3) show ?thesis
      by (simp add: has_append has_Cons has_Nil)
  next
    case (viewer lo sel files ok)
    from shape_has [OF viewer(1)] viewer(2,3,4) show ?thesis
      by (auto simp: has_append has_Cons has_Nil)
  qed
  with main_exit_code_spec [OF assms] show ?thesis by blast
qed

text \<open>
  For \<^verbatim>\<open>-s bogus a.png\<close> the scale setter of the sample rejects the value, and the exit
  code is 1.
\<close>

theorem exit_code_witness:
  "main sample_ext False ''swayimg'' [''-s'', ''bogus'', ''a.png''] =
     (1, [Getopt_long 115, Set_scale_config (Some ''bogus'') False]) \<and>
   set_scale_config sample_ext sample_config (Some ''bogus'') = None \<and>
   exit_code_spec sample_ext False ''swayimg'' [''-s'', ''bogus'', ''a.png''] = 1"
proof -
  from exit_code [OF run_main_rejected]
  have "1 = exit_code_spec sample_ext False ''swayimg'' [''-s'', ''bogus'', ''a.png'']"
    by blast
  moreover have "set_scale_config sample_ext sample_config (Some ''bogus'') = None"
    by (simp add: sample_ext_def)
  ultimately show ?thesis using run_main_rejected by simp
qed

section \<open>Where the scan stops\<close>












lemma advance_permute_head:
  "todo (advance PERMUTE d) = tok # rest \<Longrightarrow> \<not> NONOPTION_P tok"
  using hd_dropWhile [of NONOPTION_P "todo d"] by (auto simp: advance_def permute_skip_def)



















section \<open>The message for an invalid argument\<close>

text \<open>
  C6 fails on the program. For the argument \<^verbatim>\<open>-xf\<close> the scanner returns \<^verbatim>\<open>'?'\<close> for
  \<^verbatim>\<open>x\<close> with \<^verbatim>\<open>optind\<close> still at this element, since the cluster is not at its end,
  and the message names \<^verbatim>\<open>argv[optind - 1]\<close>: the program name, not the token.
\<close>

theorem invalid_argument_names_previous_element:
  "parse_cmdline sample_ext False ''swayimg'' [''-xf''] sample_config =
     (- 1, sample_config,
      \<lparr>scanned = [''swayimg''], nonopts = [], recent = [], cur = ''-xf'',
         nextchar = ''f'', todo = [], optarg = None\<rparr>,
      [Getopt_long 63, Stderr (''Invalid argument: swayimg'' @ newline)])"
  by code_simp

end
